theory Spec2Isabelle
  imports Complex_Main "HOL-Library.Product_Lexorder"
begin

unbundle bit_operations_syntax

section \<open>Rule 190 MIDI renderer (rule190.py)\<close>

text \<open>
  A shallow embedding of \<^verbatim>\<open>rule190.py\<close>. Python integers are \<open>int\<close>, Python lists are
  HOL lists, a \<^verbatim>\<open>for i in range(...)\<close> loop is a recursive function over the list of
  indices the range produces, and every exception the code can raise is a value
  \<open>Inl e\<close> of the result.

  Python floats (the gate fraction, the seconds per step) are modelled by exact
  rationals: the rounding of IEEE doubles is not part of the model. The three
  division-by-zero errors of \<^verbatim>\<open>steps_for_8_seconds\<close> are those of Python; the step
  count itself is exact where every intermediate value is a binary fraction, and the
  theorems of the scheduler are stated for an arbitrary step count, so that they hold
  for whatever value the float expression yields.

  The \<^verbatim>\<open>mido\<close> library is not part of the repository. A message is a value of the
  datatype \<open>message\<close>; the tempo message records the argument of \<^verbatim>\<open>mido.bpm2tempo\<close>;
  the library's own validation of message fields and the file writing of
  \<^verbatim>\<open>MidiFile.save\<close> are outside the model: \<open>schedule_events\<close> returns the track
  that is saved.

  Of the driver \<^verbatim>\<open>main\<close> only the validation rows are modelled (\<open>single_one_row\<close>,
  \<open>fixed0_steps\<close>); \<^verbatim>\<open>build_scale_across_width\<close> is not needed by any statement
  below: the scale is an arbitrary list of pitches.
\<close>

datatype py_error = KeyError | IndexError | ZeroDivisionError | TypeError

subsection \<open>Cellular automaton\<close>

text \<open>The dict \<^verbatim>\<open>RULE190\<close>; a key that is absent raises \<^verbatim>\<open>KeyError\<close>.\<close>

definition RULE190 :: "int \<rightharpoonup> int" where
  "RULE190 = map_of [(7, 1), (6, 0), (5, 1), (4, 1), (3, 1), (2, 1), (1, 1), (0, 0)]"

text \<open>\<^verbatim>\<open>RULE190[(l << 2) | (c << 1) | r]\<close>\<close>

definition rule_lookup :: "int \<Rightarrow> int \<Rightarrow> int \<Rightarrow> py_error + int" where
  "rule_lookup l c r =
     (case RULE190 (push_bit 2 l OR push_bit 1 c OR r) of
        None \<Rightarrow> Inl KeyError
      | Some v \<Rightarrow> Inr v)"

text \<open>
  The loop of \<^verbatim>\<open>next_rule190_toroidal\<close> over \<^verbatim>\<open>range(W)\<close>; \<open>nxt\<close> is the list
  being filled. Python's \<^verbatim>\<open>%\<close> has the sign of the divisor, as \<open>mod\<close> on \<open>int\<close>.
\<close>

fun toroidal_loop :: "int list \<Rightarrow> nat list \<Rightarrow> int list \<Rightarrow> py_error + int list" where
  "toroidal_loop row [] nxt = Inr nxt"
| "toroidal_loop row (i # js) nxt =
     (let W = length row;
          l = row ! nat ((int i - 1) mod int W);
          c = row ! i;
          r = row ! nat ((int i + 1) mod int W)
      in case rule_lookup l c r of
           Inl e \<Rightarrow> Inl e
         | Inr v \<Rightarrow> toroidal_loop row js (nxt[i := v]))"

definition next_rule190_toroidal :: "int list \<Rightarrow> py_error + int list" where
  "next_rule190_toroidal row =
     (let W = length row; nxt = replicate W 0 in toroidal_loop row [0..<W] nxt)"

fun fixed0_loop :: "int list \<Rightarrow> nat list \<Rightarrow> int list \<Rightarrow> py_error + int list" where
  "fixed0_loop row [] nxt = Inr nxt"
| "fixed0_loop row (i # js) nxt =
     (let W = length row;
          l = (if 0 < i then row ! (i - 1) else 0);
          c = row ! i;
          r = (if int i < int W - 1 then row ! (i + 1) else 0)
      in case rule_lookup l c r of
           Inl e \<Rightarrow> Inl e
         | Inr v \<Rightarrow> fixed0_loop row js (nxt[i := v]))"

definition next_rule190_fixed0 :: "int list \<Rightarrow> py_error + int list" where
  "next_rule190_fixed0 row =
     (let W = length row; nxt = replicate W 0 in fixed0_loop row [0..<W] nxt)"

subsection \<open>Validation math\<close>

text \<open>
  The first loop of \<^verbatim>\<open>row_to_int_anchor_rightmost\<close>, over
  \<^verbatim>\<open>range(len(row) - 1, -1, -1)\<close>: the index of the rightmost truthy cell, or -1.
\<close>

fun find_rightmost :: "int list \<Rightarrow> nat list \<Rightarrow> int" where
  "find_rightmost row [] = - 1"
| "find_rightmost row (i # js) = (if row ! i \<noteq> 0 then int i else find_rightmost row js)"

text \<open>The second loop, over \<^verbatim>\<open>range(idx, -1, -1)\<close>, with the state \<open>(x, bit_no)\<close> (\<^verbatim>\<open>bit\<close> in the source).\<close>

fun pack_loop :: "int list \<Rightarrow> nat list \<Rightarrow> int \<times> nat \<Rightarrow> int \<times> nat" where
  "pack_loop row [] (x, bit_no) = (x, bit_no)"
| "pack_loop row (k # ks) (x, bit_no) =
     pack_loop row ks (if row ! k \<noteq> 0 then x OR push_bit bit_no 1 else x, bit_no + 1)"

definition row_to_int_anchor_rightmost :: "int list \<Rightarrow> int" where
  "row_to_int_anchor_rightmost row =
     (let idx = find_rightmost row (rev [0..<length row])
      in if idx = - 1 then 0
         else fst (pack_loop row (rev [0..<nat (idx + 1)]) (0, 0)))"

text \<open>
  The loop of \<^verbatim>\<open>rule190_single_one_sequence\<close> over \<^verbatim>\<open>range(3, n)\<close>. The negative
  indices \<^verbatim>\<open>a[-1]\<close>, \<^verbatim>\<open>a[-2]\<close>, \<^verbatim>\<open>a[-3]\<close> raise \<^verbatim>\<open>IndexError\<close> on a list shorter
  than three.
\<close>

fun sequence_loop :: "nat list \<Rightarrow> int list \<Rightarrow> py_error + int list" where
  "sequence_loop [] a = Inr a"
| "sequence_loop (k # ks) a =
     (let n = length a
      in if n < 3 then Inl IndexError
         else sequence_loop ks (a @ [4 * a ! (n - 1) + a ! (n - 2) - 4 * a ! (n - 3)]))"

definition rule190_single_one_sequence :: "int \<Rightarrow> py_error + int list" where
  "rule190_single_one_sequence n =
     (if n \<le> 0 then Inr []
      else if n = 1 then Inr [1]
      else if n = 2 then Inr [1, 7]
      else case sequence_loop [3..<nat n] [1, 7, 29] of
             Inl e \<Rightarrow> Inl e
           | Inr a \<Rightarrow> Inr (take (nat n) a))"

text \<open>
  The validation procedure of the driver: a row of width \<open>W\<close> with a single 1 at
  its centre, stepped \<open>t\<close> times under the fixed-zero boundary.
\<close>

definition single_one_row :: "nat \<Rightarrow> int list" where
  "single_one_row W = (replicate W 0)[W div 2 := 1]"

fun fixed0_steps :: "nat \<Rightarrow> int list \<Rightarrow> py_error + int list" where
  "fixed0_steps 0 row = Inr row"
| "fixed0_steps (Suc t) row =
     (case fixed0_steps t row of
        Inl e \<Rightarrow> Inl e
      | Inr r \<Rightarrow> next_rule190_fixed0 r)"

text \<open>The recurrence as the specification words it, a function of the step.\<close>

fun closed_form :: "nat \<Rightarrow> int" where
  "closed_form 0 = 1"
| "closed_form (Suc 0) = 7"
| "closed_form (Suc (Suc 0)) = 29"
| "closed_form (Suc (Suc (Suc t))) =
     4 * closed_form (Suc (Suc t)) + closed_form (Suc t) - 4 * closed_form t"

text \<open>The Rule-190 table as the specification words it, on three cell values.\<close>

definition rule190_table :: "int \<Rightarrow> int \<Rightarrow> int \<Rightarrow> int" where
  "rule190_table l c r =
     (if (l, c, r) = (1, 1, 1) then 1
      else if (l, c, r) = (1, 1, 0) then 0
      else if (l, c, r) = (1, 0, 1) then 1
      else if (l, c, r) = (1, 0, 0) then 1
      else if (l, c, r) = (0, 1, 1) then 1
      else if (l, c, r) = (0, 1, 0) then 1
      else if (l, c, r) = (0, 0, 1) then 1
      else 0)"

definition binary_row :: "int list \<Rightarrow> bool" where
  "binary_row row = list_all (\<lambda>x. x = 0 \<or> x = 1) row"

subsection \<open>MIDI rendering\<close>

record RenderConfig =
  bpm :: int
  ppq :: int
  q :: int
  gate :: "rat option"
  filename :: string

text \<open>
  \<^verbatim>\<open>60.0 / cfg.bpm * (cfg.q / cfg.ppq)\<close>: both divisions raise on a zero divisor.
\<close>

definition seconds_per_step :: "RenderConfig \<Rightarrow> py_error + rat" where
  "seconds_per_step cfg =
     (if bpm cfg = 0 then Inl ZeroDivisionError
      else if ppq cfg = 0 then Inl ZeroDivisionError
      else Inr (60 / of_int (bpm cfg) * (of_int (q cfg) / of_int (ppq cfg))))"

definition steps_for_8_seconds :: "RenderConfig \<Rightarrow> py_error + int" where
  "steps_for_8_seconds cfg =
     (case seconds_per_step cfg of
        Inl e \<Rightarrow> Inl e
      | Inr sps \<Rightarrow> if sps = 0 then Inl ZeroDivisionError else Inr \<lfloor>8 / sps\<rfloor>)"

text \<open>
  The messages the scheduler builds: the tempo meta message (with the argument of
  \<^verbatim>\<open>bpm2tempo\<close> and the time), and the two channel messages with channel, note,
  velocity and time.
\<close>

datatype message =
    is_set_tempo: set_tempo int int
  | is_note_off: note_off int int int int
  | is_note_on: note_on int int int int

type_synonym event = "int \<times> message"

fun set_time :: "message \<Rightarrow> int \<Rightarrow> message" where
  "set_time (set_tempo b _) t = set_tempo b t"
| "set_time (note_off ch n v _) t = note_off ch n v t"
| "set_time (note_on ch n v _) t = note_on ch n v t"

fun msg_time :: "message \<Rightarrow> int" where
  "msg_time (set_tempo _ t) = t"
| "msg_time (note_off _ _ _ t) = t"
| "msg_time (note_on _ _ _ t) = t"

text \<open>\<^verbatim>\<open>staccato = (cfg.gate is not None) and (cfg.gate > 0.0)\<close>\<close>

definition staccato :: "RenderConfig \<Rightarrow> bool" where
  "staccato cfg = (case gate cfg of None \<Rightarrow> False | Some g \<Rightarrow> 0 < g)"

text \<open>\<^verbatim>\<open>None if cfg.gate is None else max(0.0, min(0.9999, float(cfg.gate)))\<close>\<close>

definition gate_frac :: "RenderConfig \<Rightarrow> rat option" where
  "gate_frac cfg =
     (case gate cfg of None \<Rightarrow> None | Some g \<Rightarrow> Some (max 0 (min (9999 / 10000) g)))"

text \<open>Python's \<^verbatim>\<open>int\<close> of a float truncates towards zero.\<close>

definition py_int :: "rat \<Rightarrow> int" where
  "py_int x = (if 0 \<le> x then \<lfloor>x\<rfloor> else \<lceil>x\<rceil>)"

text \<open>
  Sustain mode, the loop over the columns: the ages and the lists of births and
  deaths. \<^verbatim>\<open>scale[i]\<close> is read for every column.
\<close>

fun classify_loop ::
  "int list \<Rightarrow> int list \<Rightarrow> int list \<Rightarrow> nat list \<Rightarrow>
   int list \<times> (int \<times> nat) list \<times> (int \<times> nat) list \<Rightarrow>
   py_error + int list \<times> (int \<times> nat) list \<times> (int \<times> nat) list" where
  "classify_loop row nxt scale [] acc = Inr acc"
| "classify_loop row nxt scale (i # js) (age, births, deaths) =
     (let was = (row ! i = 1); now = (nxt ! i = 1)
      in if length scale \<le> i then Inl IndexError
         else let note = scale ! i
              in if now \<and> \<not> was then
                   classify_loop row nxt scale js (age[i := 1], births @ [(note, i)], deaths)
                 else if now \<and> was then
                   classify_loop row nxt scale js (age[i := age ! i + 1], births, deaths)
                 else if was \<and> \<not> now then
                   classify_loop row nxt scale js (age[i := 0], births, deaths @ [(note, i)])
                 else classify_loop row nxt scale js (age, births, deaths))"

fun deaths_loop :: "int \<Rightarrow> (int \<times> nat) list \<Rightarrow> event list \<times> int set \<Rightarrow> event list \<times> int set" where
  "deaths_loop base_tick [] acc = acc"
| "deaths_loop base_tick ((note, _) # ds) (events, active_notes) =
     (if note \<in> active_notes then
        deaths_loop base_tick ds
          (events @ [(base_tick, note_off 0 note 0 0)], active_notes - {note})
      else deaths_loop base_tick ds (events, active_notes))"

fun births_loop ::
  "int \<Rightarrow> int list \<Rightarrow> (int \<times> nat) list \<Rightarrow> event list \<times> int set \<Rightarrow> event list \<times> int set" where
  "births_loop base_tick age [] acc = acc"
| "births_loop base_tick age ((note, idx) # bs) (events, active_notes) =
     (let vel = min (30 + 10 * age ! idx) 110
      in births_loop base_tick age bs
           (events @ [(base_tick, note_on 0 note vel 0)], insert note active_notes))"

text \<open>Staccato mode, the loop over the columns.\<close>

fun staccato_loop ::
  "int list \<Rightarrow> int list \<Rightarrow> int list \<Rightarrow> int \<Rightarrow> int \<Rightarrow> nat list \<Rightarrow>
   int list \<times> event list \<Rightarrow> py_error + int list \<times> event list" where
  "staccato_loop row nxt scale base_tick off_tick [] acc = Inr acc"
| "staccato_loop row nxt scale base_tick off_tick (i # js) (age, events) =
     (if nxt ! i = 1 then
        let age' = age[i := (if row ! i = 1 then age ! i + 1 else 1)]
        in if length scale \<le> i then Inl IndexError
           else let note = scale ! i;
                    vel = min (30 + 10 * age' ! i) 110
                in staccato_loop row nxt scale base_tick off_tick js
                     (age', events @ [(base_tick, note_on 0 note vel 0),
                                      (off_tick, note_off 0 note 0 0)])
      else staccato_loop row nxt scale base_tick off_tick js (age[i := 0], events))"

text \<open>The state of the loop over the steps.\<close>

record sched_state =
  st_row :: "int list"
  st_age :: "int list"
  st_events :: "event list"
  st_active_notes :: "int set"

text \<open>One iteration \<open>s\<close> of the loop over \<^verbatim>\<open>range(steps)\<close>; \<open>W\<close> is \<^verbatim>\<open>len(row0)\<close>.\<close>

definition sched_step ::
  "nat \<Rightarrow> int list \<Rightarrow> RenderConfig \<Rightarrow> nat \<Rightarrow> sched_state \<Rightarrow> py_error + sched_state" where
  "sched_step W scale cfg s st =
     (let base_tick = int s * q cfg
      in case next_rule190_toroidal (st_row st) of
           Inl e \<Rightarrow> Inl e
         | Inr nxt \<Rightarrow>
             if \<not> staccato cfg then
               (case classify_loop (st_row st) nxt scale [0..<W] (st_age st, [], []) of
                  Inl e \<Rightarrow> Inl e
                | Inr (age', births, deaths) \<Rightarrow>
                    (case deaths_loop base_tick deaths (st_events st, st_active_notes st) of
                       (ev1, act1) \<Rightarrow>
                         (case births_loop base_tick age' births (ev1, act1) of
                            (ev2, act2) \<Rightarrow>
                              Inr \<lparr>st_row = nxt, st_age = age', st_events = ev2,
                                   st_active_notes = act2\<rparr>)))
             else
               (case gate_frac cfg of
                  None \<Rightarrow> Inl TypeError
                | Some gf \<Rightarrow>
                    let off_tick = base_tick + py_int (of_int (q cfg) * gf)
                    in case staccato_loop (st_row st) nxt scale base_tick off_tick [0..<W]
                              (st_age st, st_events st) of
                         Inl e \<Rightarrow> Inl e
                       | Inr (age', ev') \<Rightarrow>
                           Inr \<lparr>st_row = nxt, st_age = age', st_events = ev',
                                st_active_notes = st_active_notes st\<rparr>))"

fun steps_loop ::
  "nat \<Rightarrow> int list \<Rightarrow> RenderConfig \<Rightarrow> nat list \<Rightarrow> sched_state \<Rightarrow> py_error + sched_state" where
  "steps_loop W scale cfg [] st = Inr st"
| "steps_loop W scale cfg (s # ss) st =
     (case sched_step W scale cfg s st of
        Inl e \<Rightarrow> Inl e
      | Inr st' \<Rightarrow> steps_loop W scale cfg ss st')"

text \<open>The state before the loop: the tempo message is put first, at tick 0.\<close>

definition init_state :: "int list \<Rightarrow> RenderConfig \<Rightarrow> sched_state" where
  "init_state row0 cfg =
     \<lparr>st_row = row0, st_age = replicate (length row0) 0,
      st_events = [(0, set_tempo (bpm cfg) 0)], st_active_notes = {}\<rparr>"

text \<open>The loop over \<^verbatim>\<open>range(steps)\<close>, empty when \<open>steps\<close> is not positive.\<close>

definition run_steps ::
  "int \<Rightarrow> int list \<Rightarrow> int list \<Rightarrow> RenderConfig \<Rightarrow> py_error + sched_state" where
  "run_steps steps row0 scale cfg =
     steps_loop (length row0) scale cfg [0..<nat steps] (init_state row0 cfg)"

text \<open>The final flush of sustain mode, over \<^verbatim>\<open>sorted(active_notes)\<close>.\<close>

definition final_flush :: "int \<Rightarrow> RenderConfig \<Rightarrow> sched_state \<Rightarrow> sched_state" where
  "final_flush steps cfg st =
     (if \<not> staccato cfg then
        let end_tick = steps * q cfg
        in st\<lparr>st_events :=
                 st_events st @
                 map (\<lambda>note. (end_tick, note_off 0 note 0 0))
                   (sorted_list_of_set (st_active_notes st)),
               st_active_notes := {}\<rparr>
      else st)"

text \<open>
  The sort key: the tick, then meta before note_off before note_on. The branches of
  the source for other message types have no message in this model.
\<close>

fun pri :: "message \<Rightarrow> int" where
  "pri (set_tempo _ _) = - 1"
| "pri (note_off _ _ _ _) = 0"
| "pri (note_on _ _ _ _) = 1"

definition sort_key_item :: "event \<Rightarrow> int \<times> int" where
  "sort_key_item item = (case item of (tick, msg) \<Rightarrow> (tick, pri msg))"

text \<open>\<^verbatim>\<open>events.sort(key=sort_key)\<close>: a stable sort, as the insertion sort of HOL is.\<close>

definition sort_events :: "event list \<Rightarrow> event list" where
  "sort_events events = sort_key sort_key_item events"

text \<open>The serialisation loop: absolute ticks to delta times, appended to the track.\<close>

fun track_loop :: "int \<Rightarrow> event list \<Rightarrow> message list \<Rightarrow> message list" where
  "track_loop last_tick [] track = track"
| "track_loop last_tick ((abs_tick, msg) # es) track =
     (let delta = abs_tick - last_tick
      in track_loop abs_tick es (track @ [set_time msg (max 0 delta)]))"

definition write_track :: "event list \<Rightarrow> message list" where
  "write_track events = track_loop 0 events []"

text \<open>The events after the flush and the sort, for a given number of steps.\<close>

definition scheduled_events ::
  "int \<Rightarrow> int list \<Rightarrow> int list \<Rightarrow> RenderConfig \<Rightarrow> py_error + event list" where
  "scheduled_events steps row0 scale cfg =
     (case run_steps steps row0 scale cfg of
        Inl e \<Rightarrow> Inl e
      | Inr st \<Rightarrow> Inr (sort_events (st_events (final_flush steps cfg st))))"

definition schedule_events ::
  "int list \<Rightarrow> int list \<Rightarrow> RenderConfig \<Rightarrow> py_error + message list" where
  "schedule_events row0 scale cfg =
     (case steps_for_8_seconds cfg of
        Inl e \<Rightarrow> Inl e
      | Inr steps \<Rightarrow>
          (case scheduled_events steps row0 scale cfg of
             Inl e \<Rightarrow> Inl e
           | Inr events \<Rightarrow> Inr (write_track events)))"

subsection \<open>Auxiliary definitions of the proofs\<close>

text \<open>The value one iteration of each rule loop stores at index \<open>i\<close>.\<close>

definition toroidal_cell :: "int list \<Rightarrow> nat \<Rightarrow> py_error + int" where
  "toroidal_cell row i =
     rule_lookup (row ! nat ((int i - 1) mod int (length row))) (row ! i)
       (row ! nat ((int i + 1) mod int (length row)))"

definition fixed0_cell :: "int list \<Rightarrow> nat \<Rightarrow> py_error + int" where
  "fixed0_cell row i =
     rule_lookup (if 0 < i then row ! (i - 1) else 0) (row ! i)
       (if int i < int (length row) - 1 then row ! (i + 1) else 0)"

text \<open>
  The rotation of a row by an integer number of positions, to the left for a positive
  \<open>k\<close> and to the right for a negative one.
\<close>

definition rotate_row :: "int \<Rightarrow> int list \<Rightarrow> int list" where
  "rotate_row k row = rotate (nat (k mod int (length row))) row"

text \<open>The row after \<open>t\<close> toroidal steps.\<close>

fun toroidal_steps :: "nat \<Rightarrow> int list \<Rightarrow> py_error + int list" where
  "toroidal_steps 0 row = Inr row"
| "toroidal_steps (Suc t) row =
     (case toroidal_steps t row of
        Inl e \<Rightarrow> Inl e
      | Inr r \<Rightarrow> next_rule190_toroidal r)"

text \<open>The birth entries of the classification loop: the cell was born and its age is 1.\<close>

definition births_ok :: "int list \<Rightarrow> int list \<Rightarrow> int list \<Rightarrow> (int \<times> nat) list \<Rightarrow> bool" where
  "births_ok row nxt age births =
     list_all (\<lambda>(note, idx). idx < length age \<and> age ! idx = 1 \<and> nxt ! idx = 1 \<and> row ! idx \<noteq> 1)
       births"

definition ages_ok :: "int list \<Rightarrow> bool" where
  "ages_ok age = list_all (\<lambda>a. 0 \<le> a) age"

text \<open>The velocities a note-start can carry: \<open>min (30 + 10 * age) 110\<close> for an age of at least 1.\<close>

definition vel_ok :: "int \<Rightarrow> bool" where
  "vel_ok v = (\<exists>a\<ge>1. v = min (30 + 10 * a) 110)"

definition velocities_ok :: "event list \<Rightarrow> bool" where
  "velocities_ok evs = (\<forall>b ch n v t. (b, note_on ch n v t) \<in> set evs \<longrightarrow> vel_ok v)"

text \<open>The invariant of the loop over the steps.\<close>

definition sched_inv :: "nat \<Rightarrow> sched_state \<Rightarrow> bool" where
  "sched_inv W st \<longleftrightarrow>
     length (st_row st) = W \<and> length (st_age st) = W \<and> ages_ok (st_age st) \<and>
     velocities_ok (st_events st)"








text \<open>
  The light cone of a single 1: after \<open>t\<close> steps the cells at the offsets \<open>0 .. 2 t\<close>
  from the left edge of the cone repeat the pattern 1, 1, 1, 0.
\<close>

definition cone_pattern :: "int \<Rightarrow> int \<Rightarrow> int" where
  "cone_pattern t j = (if 0 \<le> j \<and> j \<le> 2 * t \<and> j mod 4 \<noteq> 3 then 1 else 0)"

definition cone_row :: "nat \<Rightarrow> nat \<Rightarrow> nat \<Rightarrow> int list" where
  "cone_row W c t = map (\<lambda>p. cone_pattern (int t) (int p + int t - int c)) [0..<W]"

text \<open>The first \<open>m\<close> cells of a row read as a binary number, the leftmost cell first.\<close>

fun prefix_value :: "int list \<Rightarrow> nat \<Rightarrow> int" where
  "prefix_value row 0 = 0"
| "prefix_value row (Suc m) = 2 * prefix_value row m + (if row ! m \<noteq> 0 then 1 else 0)"

text \<open>The first \<open>m\<close> cells of the pattern 1, 1, 1, 0 read as a binary number.\<close>

fun pattern_value :: "nat \<Rightarrow> int" where
  "pattern_value 0 = 0"
| "pattern_value (Suc m) = 2 * pattern_value m + (if int m mod 4 \<noteq> 3 then 1 else 0)"

section \<open>Rule engine\<close>

lemma RULE190_dom: "dom RULE190 = {0, 1, 2, 3, 4, 5, 6, 7}"
  by (auto simp: RULE190_def split: if_splits)

lemma rule_lookup_binary:
  "(l = 0 \<or> l = 1) \<Longrightarrow> (c = 0 \<or> c = 1) \<Longrightarrow> (r = 0 \<or> r = 1) \<Longrightarrow>
   rule_lookup l c r = Inr (rule190_table l c r)"
  by (auto simp: rule_lookup_def RULE190_def rule190_table_def)

lemma rule_lookup_error: "rule_lookup l c r = Inl e \<Longrightarrow> e = KeyError"
  by (auto simp: rule_lookup_def split: option.splits)

lemma fold_update_upt:
  "n \<le> length xs \<Longrightarrow>
   fold (\<lambda>i acc. acc[i := f i]) [0..<n] xs = map f [0..<n] @ drop n xs"
proof (induction n)
  case 0
  then show ?case by simp
next
  case (Suc n)
  then have "n < length xs" by simp
  then have "(map f [0..<n] @ drop n xs)[n := f n] = map f [0..<n] @ f n # drop (Suc n) xs"
    by (simp add: list_update_append upd_conv_take_nth_drop)
  with Suc show ?case by simp
qed

lemma toroidal_loop_Inr:
  "\<forall>i\<in>set js. toroidal_cell row i = Inr (f i) \<Longrightarrow>
   toroidal_loop row js nxt = Inr (fold (\<lambda>i acc. acc[i := f i]) js nxt)"
  by (induction js arbitrary: nxt) (simp_all add: toroidal_cell_def Let_def)

lemma toroidal_loop_Inl:
  "i \<in> set js \<Longrightarrow> toroidal_cell row i = Inl e \<Longrightarrow> toroidal_loop row js nxt = Inl KeyError"
proof (induction js arbitrary: nxt)
  case Nil
  then show ?case by simp
next
  case (Cons j js)
  show ?case
  proof (cases "toroidal_cell row j")
    case (Inl e')
    then show ?thesis using rule_lookup_error[of _ _ _ e']
      by (simp add: toroidal_cell_def Let_def)
  next
    case (Inr v)
    with Cons show ?thesis by (auto simp: toroidal_cell_def Let_def)
  qed
qed

lemma next_rule190_toroidal_Inr:
  assumes "\<forall>i<length row. toroidal_cell row i = Inr (f i)"
  shows "next_rule190_toroidal row = Inr (map f [0..<length row])"
proof -
  have "toroidal_loop row [0..<length row] (replicate (length row) 0) =
        Inr (fold (\<lambda>i acc. acc[i := f i]) [0..<length row] (replicate (length row) 0))"
    using assms by (intro toroidal_loop_Inr) simp
  then show ?thesis
    by (simp add: next_rule190_toroidal_def fold_update_upt)
qed

lemma next_rule190_toroidal_Inl:
  assumes "i < length row" "toroidal_cell row i = Inl e"
  shows "next_rule190_toroidal row = Inl KeyError"
  using toroidal_loop_Inl[of i "[0..<length row]" row e] assms
  by (simp add: next_rule190_toroidal_def)

lemma wrap_left: "i < W \<Longrightarrow> nat ((int i - 1) mod int W) = (i + W - 1) mod W"
proof (cases i)
  case 0
  assume "i < W"
  with 0 have "(- 1) mod int W = int W - 1"
    by (simp add: zmod_minus1)
  with 0 \<open>i < W\<close> show ?thesis by simp
next
  case (Suc j)
  assume "i < W"
  with Suc have "(int i - 1) mod int W = int j" by simp
  with Suc \<open>i < W\<close> show ?thesis by simp
qed

lemma wrap_right: "nat ((int i + 1) mod int W) = (i + 1) mod W"
  by (metis nat_int of_nat_1 of_nat_add zmod_int)

lemma binary_row_nth: "binary_row row \<Longrightarrow> i < length row \<Longrightarrow> row ! i = 0 \<or> row ! i = 1"
  by (simp add: binary_row_def list_all_length)

lemma toroidal_cell_binary:
  assumes "binary_row row" "i < length row"
  shows "toroidal_cell row i =
         Inr (rule190_table (row ! ((i + length row - 1) mod length row)) (row ! i)
                (row ! ((i + 1) mod length row)))"
proof -
  have "(i + length row - 1) mod length row < length row" "(i + 1) mod length row < length row"
    using assms(2) by (auto intro: mod_less_divisor)
  then show ?thesis
    using assms binary_row_nth[OF assms(1)]
    by (simp add: toroidal_cell_def wrap_left wrap_right rule_lookup_binary)
qed

lemma fixed0_cell_binary:
  assumes "binary_row row" "i < length row"
  shows "fixed0_cell row i =
         Inr (rule190_table (if 0 < i then row ! (i - 1) else 0) (row ! i)
                (if i + 1 < length row then row ! (i + 1) else 0))"
proof -
  have "(int i < int (length row) - 1) = (i + 1 < length row)" by auto
  then show ?thesis
    using assms binary_row_nth[OF assms(1)]
    by (simp add: fixed0_cell_def rule_lookup_binary)
qed

lemma fixed0_loop_Inr:
  "\<forall>i\<in>set js. fixed0_cell row i = Inr (f i) \<Longrightarrow>
   fixed0_loop row js nxt = Inr (fold (\<lambda>i acc. acc[i := f i]) js nxt)"
  by (induction js arbitrary: nxt) (simp_all add: fixed0_cell_def Let_def)

lemma next_rule190_fixed0_Inr:
  assumes "\<forall>i<length row. fixed0_cell row i = Inr (f i)"
  shows "next_rule190_fixed0 row = Inr (map f [0..<length row])"
proof -
  have "fixed0_loop row [0..<length row] (replicate (length row) 0) =
        Inr (fold (\<lambda>i acc. acc[i := f i]) [0..<length row] (replicate (length row) 0))"
    using assms by (intro fixed0_loop_Inr) simp
  then show ?thesis
    by (simp add: next_rule190_fixed0_def fold_update_upt)
qed

lemma next_rule190_toroidal_binary:
  assumes "binary_row row"
  shows "next_rule190_toroidal row =
         Inr (map (\<lambda>i. rule190_table (row ! ((i + length row - 1) mod length row)) (row ! i)
                          (row ! ((i + 1) mod length row))) [0..<length row])"
  by (rule next_rule190_toroidal_Inr) (simp add: toroidal_cell_binary [OF assms])

lemma next_rule190_fixed0_binary:
  assumes "binary_row row"
  shows "next_rule190_fixed0 row =
         Inr (map (\<lambda>i. rule190_table (if 0 < i then row ! (i - 1) else 0) (row ! i)
                          (if i + 1 < length row then row ! (i + 1) else 0)) [0..<length row])"
  by (rule next_rule190_fixed0_Inr) (simp add: fixed0_cell_binary [OF assms])

text \<open>
  Claim C1. For a row of binary cells of any length, both one-step updates return a
  row of the same length whose cell \<open>i\<close> is the Rule-190 table value of the
  neighbourhood (left, centre, right): the neighbours wrap modulo the width under the
  toroidal policy and are 0 out of range under the fixed-zero policy; the empty row
  is mapped to the empty row.
\<close>

theorem rule190_step_is_table_lookup:
  assumes "binary_row row"
  shows "(\<exists>nxt. next_rule190_toroidal row = Inr nxt \<and> length nxt = length row \<and>
            (\<forall>i<length row.
               nxt ! i = rule190_table (row ! ((i + length row - 1) mod length row)) (row ! i)
                           (row ! ((i + 1) mod length row)))) \<and>
         (\<exists>nxt. next_rule190_fixed0 row = Inr nxt \<and> length nxt = length row \<and>
            (\<forall>i<length row.
               nxt ! i = rule190_table (if 0 < i then row ! (i - 1) else 0) (row ! i)
                           (if i + 1 < length row then row ! (i + 1) else 0))) \<and>
         (row = [] \<longrightarrow> next_rule190_toroidal row = Inr [] \<and> next_rule190_fixed0 row = Inr [])"
proof (intro conjI)
  show "\<exists>nxt. next_rule190_toroidal row = Inr nxt \<and> length nxt = length row \<and>
            (\<forall>i<length row.
               nxt ! i = rule190_table (row ! ((i + length row - 1) mod length row)) (row ! i)
                           (row ! ((i + 1) mod length row)))"
    by (simp add: next_rule190_toroidal_binary [OF assms])
  show "\<exists>nxt. next_rule190_fixed0 row = Inr nxt \<and> length nxt = length row \<and>
            (\<forall>i<length row.
               nxt ! i = rule190_table (if 0 < i then row ! (i - 1) else 0) (row ! i)
                           (if i + 1 < length row then row ! (i + 1) else 0))"
    by (simp add: next_rule190_fixed0_binary [OF assms])
  show "row = [] \<longrightarrow> next_rule190_toroidal row = Inr [] \<and> next_rule190_fixed0 row = Inr []"
    by (simp add: next_rule190_toroidal_def next_rule190_fixed0_def)
qed

theorem rule190_step_is_table_lookup_witness:
  "binary_row [0, 0, 1, 0, 0] \<and>
   (\<exists>nxt. next_rule190_toroidal [0, 0, 1, 0, 0] = Inr nxt \<and> length nxt = 5 \<and>
      nxt ! 1 = rule190_table 0 0 1 \<and> nxt ! 0 = rule190_table 0 0 0) \<and>
   (\<exists>nxt. next_rule190_fixed0 [0, 0, 1, 0, 0] = Inr nxt \<and> length nxt = 5 \<and>
      nxt ! 4 = rule190_table 0 0 0 \<and> nxt ! 3 = rule190_table 1 0 0)"
proof -
  have b: "binary_row [0, 0, 1, 0, 0]"
    by (simp add: binary_row_def)
  from rule190_step_is_table_lookup [OF b]
  obtain n1 n2 where
    t: "next_rule190_toroidal [0, 0, 1, 0, 0] = Inr n1" "length n1 = 5"
       "\<forall>i<5. n1 ! i = rule190_table ([0, 0, 1, 0, 0] ! ((i + 5 - 1) mod 5)) ([0, 0, 1, 0, 0] ! i)
                           ([0, 0, 1, 0, 0] ! ((i + 1) mod 5))" and
    f: "next_rule190_fixed0 [0, 0, 1, 0, 0] = Inr n2" "length n2 = 5"
       "\<forall>i<5. n2 ! i = rule190_table (if 0 < i then [0, 0, 1, 0, 0] ! (i - 1) else 0)
                           ([0, 0, 1, 0, 0] ! i)
                           (if i + 1 < 5 then [0, 0, 1, 0, 0] ! (i + 1) else 0)"
    by auto
  from t(3) have "n1 ! 1 = rule190_table 0 0 1" "n1 ! 0 = rule190_table 0 0 0"
    by (auto dest: spec [of _ 1] spec [of _ 0])
  moreover from f(3) have "n2 ! 4 = rule190_table 0 0 0" "n2 ! 3 = rule190_table 1 0 0"
    by (auto dest: spec [of _ 4] spec [of _ 3])
  ultimately show ?thesis
    using b t(1,2) f(1,2) by simp
qed

lemma toroidal_cells_of_Inr:
  assumes "next_rule190_toroidal row = Inr nxt"
  shows "length nxt = length row" and "\<forall>i<length row. toroidal_cell row i = Inr (nxt ! i)"
proof -
  let ?f = "\<lambda>i. projr (toroidal_cell row i)"
  have all: "\<forall>i<length row. toroidal_cell row i = Inr (?f i)"
  proof (intro allI impI)
    fix i assume i: "i < length row"
    show "toroidal_cell row i = Inr (?f i)"
    proof (cases "toroidal_cell row i")
      case (Inl e)
      from next_rule190_toroidal_Inl [OF i Inl] assms show ?thesis by simp
    next
      case (Inr v)
      then show ?thesis by simp
    qed
  qed
  from next_rule190_toroidal_Inr [OF all] assms
  have nxt: "nxt = map ?f [0..<length row]" by simp
  then show "length nxt = length row" by simp
  show "\<forall>i<length row. toroidal_cell row i = Inr (nxt ! i)"
  proof (intro allI impI)
    fix i assume i: "i < length row"
    then have "nxt ! i = ?f i" by (simp add: nxt)
    with all i show "toroidal_cell row i = Inr (nxt ! i)" by simp
  qed
qed

lemma toroidal_cell_rotate:
  assumes "i < length row"
  shows "toroidal_cell (rotate k row) i = toroidal_cell row ((i + k) mod length row)"
proof -
  let ?W = "length row"
  have W: "0 < ?W" using assms by auto
  have l: "(i + ?W - 1) mod ?W < ?W" and r: "(i + 1) mod ?W < ?W" and c: "(i + k) mod ?W < ?W"
    using W by simp_all
  have e1: "(k + (i + ?W - 1) mod ?W) mod ?W = ((i + k) mod ?W + ?W - 1) mod ?W"
  proof -
    have "(k + (i + ?W - 1) mod ?W) mod ?W = (k + (i + ?W - 1)) mod ?W"
      by (simp add: mod_add_right_eq)
    also have "k + (i + ?W - 1) = (i + k) + (?W - 1)" using W by arith
    also have "((i + k) + (?W - 1)) mod ?W = ((i + k) mod ?W + (?W - 1)) mod ?W"
      by (simp add: mod_add_left_eq)
    also have "(i + k) mod ?W + (?W - 1) = (i + k) mod ?W + ?W - 1" using W by arith
    finally show ?thesis .
  qed
  have e2: "(k + (i + 1) mod ?W) mod ?W = ((i + k) mod ?W + 1) mod ?W"
  proof -
    have "(k + (i + 1) mod ?W) mod ?W = (k + (i + 1)) mod ?W"
      by (simp only: mod_add_right_eq)
    also have "k + (i + 1) = (i + k) + 1" by simp
    also have "((i + k) + 1) mod ?W = ((i + k) mod ?W + 1) mod ?W"
      by (simp only: mod_add_left_eq)
    finally show ?thesis .
  qed
  have e3: "(k + i) mod ?W = (i + k) mod ?W" by (simp add: add.commute)
  show ?thesis
    using assms l r c
    by (simp add: toroidal_cell_def wrap_left wrap_right nth_rotate e1 e2 e3 del: One_nat_def)
qed

lemma toroidal_cells_dichotomy:
  "(\<forall>i<length row. toroidal_cell row i = Inr (projr (toroidal_cell row i))) \<or>
   (\<exists>i<length row. \<exists>e. toroidal_cell row i = Inl e)"
proof (cases "\<exists>i<length row. \<exists>e. toroidal_cell row i = Inl e")
  case True
  then show ?thesis by simp
next
  case False
  have "\<forall>i<length row. toroidal_cell row i = Inr (projr (toroidal_cell row i))"
  proof (intro allI impI)
    fix i assume "i < length row"
    with False show "toroidal_cell row i = Inr (projr (toroidal_cell row i))"
      by (cases "toroidal_cell row i") auto
  qed
  then show ?thesis by simp
qed

lemma rotate_back_index:
  assumes "i < W"
  shows "((i + (W - k mod W)) mod W + k) mod W = (i::nat)"
proof -
  have W: "0 < W" using assms by auto
  then have le: "k mod W \<le> W" by (simp add: less_imp_le)
  have "((i + (W - k mod W)) mod W + k) mod W = (i + (W - k mod W) + k) mod W"
    by (simp add: mod_add_left_eq)
  also have "\<dots> = (i + (W - k mod W) + k mod W) mod W"
    by (simp add: mod_add_right_eq)
  also have "i + (W - k mod W) + k mod W = i + W"
    using le by arith
  also have "(i + W) mod W = i" using assms by simp
  finally show ?thesis .
qed

lemma next_rule190_toroidal_rotate:
  "next_rule190_toroidal (rotate k row) =
     (case next_rule190_toroidal row of Inl e \<Rightarrow> Inl e | Inr nxt \<Rightarrow> Inr (rotate k nxt))"
proof (cases "row = []")
  case True
  then show ?thesis by (simp add: next_rule190_toroidal_def)
next
  case False
  let ?W = "length row"
  have W: "0 < ?W" using False by simp
  show ?thesis
  proof (cases "next_rule190_toroidal row")
    case (Inr nxt)
    note nxt = toroidal_cells_of_Inr(1) [OF Inr] and cells = toroidal_cells_of_Inr(2) [OF Inr]
    have "\<forall>i<length (rotate k row).
            toroidal_cell (rotate k row) i = Inr (nxt ! ((i + k) mod ?W))"
    proof (intro allI impI)
      fix i assume "i < length (rotate k row)"
      then have i: "i < ?W" by simp
      have "(i + k) mod ?W < ?W" using W by simp
      with cells have "toroidal_cell row ((i + k) mod ?W) = Inr (nxt ! ((i + k) mod ?W))"
        by blast
      then show "toroidal_cell (rotate k row) i = Inr (nxt ! ((i + k) mod ?W))"
        by (simp only: toroidal_cell_rotate [OF i])
    qed
    from next_rule190_toroidal_Inr [OF this]
    have "next_rule190_toroidal (rotate k row) =
          Inr (map (\<lambda>i. nxt ! ((i + k) mod ?W)) [0..<?W])" by simp
    moreover have "map (\<lambda>i. nxt ! ((i + k) mod ?W)) [0..<?W] = rotate k nxt"
    proof (rule nth_equalityI)
      show "length (map (\<lambda>i. nxt ! ((i + k) mod ?W)) [0..<?W]) = length (rotate k nxt)"
        using nxt by simp
    next
      fix i assume "i < length (map (\<lambda>i. nxt ! ((i + k) mod ?W)) [0..<?W])"
      then have i: "i < length nxt" using nxt by simp
      show "map (\<lambda>i. nxt ! ((i + k) mod ?W)) [0..<?W] ! i = rotate k nxt ! i"
        using i nxt by (simp add: nth_rotate [OF i] add.commute)
    qed
    ultimately show ?thesis using Inr by simp
  next
    case (Inl e)
    from toroidal_cells_dichotomy [of row]
    have "\<exists>i<?W. \<exists>e'. toroidal_cell row i = Inl e'"
    proof
      assume "\<forall>i<?W. toroidal_cell row i = Inr (projr (toroidal_cell row i))"
      from next_rule190_toroidal_Inr [OF this] Inl show ?thesis by simp
    qed
    then obtain i e' where i: "i < ?W" "toroidal_cell row i = Inl e'" by blast
    from next_rule190_toroidal_Inl [OF i] Inl have e: "e = KeyError" by simp
    let ?j = "(i + (?W - k mod ?W)) mod ?W"
    have j: "?j < length (rotate k row)" using W by simp
    then have j': "?j < ?W" by simp
    have "toroidal_cell (rotate k row) ?j = toroidal_cell row i"
      by (simp only: toroidal_cell_rotate [OF j'] rotate_back_index [OF i(1)])
    with i(2) have "toroidal_cell (rotate k row) ?j = Inl e'" by simp
    from next_rule190_toroidal_Inl [OF j this] Inl e show ?thesis by simp
  qed
qed

text \<open>
  Claim C8. The toroidal step is translation-equivariant: for a row of length at
  least 1 and every integer \<open>k\<close>, the step of the row rotated by \<open>k\<close> positions is
  the rotation by \<open>k\<close> positions of the step of the row (a \<^verbatim>\<open>KeyError\<close> of one is a
  \<^verbatim>\<open>KeyError\<close> of the other); and cell 0 of the next row is the table lookup of
  \<^verbatim>\<open>row[W-1]\<close>, \<^verbatim>\<open>row[0]\<close> and \<^verbatim>\<open>row[1 % W]\<close>, so it depends on these three
  cells only.
\<close>

theorem toroidal_step_translation_equivariant:
  assumes "row \<noteq> []"
  shows "next_rule190_toroidal (rotate_row k row) =
           (case next_rule190_toroidal row of
              Inl e \<Rightarrow> Inl e
            | Inr nxt \<Rightarrow> Inr (rotate_row k nxt)) \<and>
         (\<forall>nxt. next_rule190_toroidal row = Inr nxt \<longrightarrow>
            Inr (nxt ! 0) =
            rule_lookup (row ! (length row - 1)) (row ! 0) (row ! (1 mod length row)))"
proof
  show "next_rule190_toroidal (rotate_row k row) =
           (case next_rule190_toroidal row of
              Inl e \<Rightarrow> Inl e
            | Inr nxt \<Rightarrow> Inr (rotate_row k nxt))"
  proof (cases "next_rule190_toroidal row")
    case (Inl e)
    then show ?thesis by (simp add: rotate_row_def next_rule190_toroidal_rotate)
  next
    case (Inr nxt)
    from toroidal_cells_of_Inr(1) [OF Inr] Inr show ?thesis by (simp add: rotate_row_def next_rule190_toroidal_rotate)
  qed
  show "\<forall>nxt. next_rule190_toroidal row = Inr nxt \<longrightarrow>
            Inr (nxt ! 0) =
            rule_lookup (row ! (length row - 1)) (row ! 0) (row ! (1 mod length row))"
  proof (intro allI impI)
    fix nxt assume "next_rule190_toroidal row = Inr nxt"
    from toroidal_cells_of_Inr(2) [OF this] assms
    have "toroidal_cell row 0 = Inr (nxt ! 0)" by simp
    moreover have "toroidal_cell row 0 =
       rule_lookup (row ! (length row - 1)) (row ! 0) (row ! (1 mod length row))"
      using assms wrap_left [of 0 "length row"] wrap_right [of 0 "length row"]
      by (simp add: toroidal_cell_def)
    ultimately show "Inr (nxt ! 0) =
            rule_lookup (row ! (length row - 1)) (row ! 0) (row ! (1 mod length row))"
      by simp
  qed
qed

lemma next_toroidal_example: "next_rule190_toroidal [0, 0, 1, 0, 0] = Inr [0, 1, 1, 1, 0]"
  by (simp add: next_rule190_toroidal_def rule_lookup_def RULE190_def upt_rec)

theorem toroidal_step_translation_equivariant_witness:
  "[0, 0, 1, 0, 0] \<noteq> ([] :: int list) \<and>
   next_rule190_toroidal (rotate_row (- 1) [0, 0, 1, 0, 0]) = Inr (rotate_row (- 1) [0, 1, 1, 1, 0]) \<and>
   rotate_row (- 1) [0, 0, 1, 0, 0] = [0, 0, 0, 1, 0] \<and>
   rotate_row (- 1) [0, 1, 1, 1, 0] = [0, 0, 1, 1, 1] \<and>
   rule_lookup 0 0 0 = Inr 0"
proof -
  have ne: "[0, 0, 1, 0, 0] \<noteq> ([] :: int list)" by simp
  note inst = toroidal_step_translation_equivariant [OF ne, of "- 1"]
  from inst have "next_rule190_toroidal (rotate_row (- 1) [0, 0, 1, 0, 0]) =
      (case next_rule190_toroidal [0, 0, 1, 0, 0] of
         Inl e \<Rightarrow> Inl e
       | Inr nxt \<Rightarrow> Inr (rotate_row (- 1) nxt))"
    by (rule conjunct1)
  then have a: "next_rule190_toroidal (rotate_row (- 1) [0, 0, 1, 0, 0]) =
      Inr (rotate_row (- 1) [0, 1, 1, 1, 0])"
    by (simp add: next_toroidal_example)
  from inst next_toroidal_example
  have "Inr ([0, 1, 1, 1, 0] ! 0) = rule_lookup ([0, 0, 1, 0, 0] ! (length [0, 0, 1, 0, 0 :: int] - 1))
          ([0, 0, 1, 0, 0] ! 0) ([0, 0, 1, 0, 0] ! (1 mod length [0, 0, 1, 0, 0 :: int]))"
    by blast
  then have b: "rule_lookup 0 0 0 = Inr 0" by simp
  have c: "rotate_row (- 1) [0, 0, 1, 0, 0] = [0, 0, 0, 1, 0]"
          "rotate_row (- 1) [0, 1, 1, 1, 0] = [0, 0, 1, 1, 1]"
    by (simp_all add: rotate_row_def eval_nat_numeral rotate1_def)
  from ne a b c show ?thesis by simp
qed

section \<open>Scheduler: mode selection and final order\<close>

lemma sched_step_sustain_cong:
  assumes "\<not> staccato cfg1" "\<not> staccato cfg2" "q cfg1 = q cfg2"
  shows "sched_step W scale cfg1 s st = sched_step W scale cfg2 s st"
  using assms by (simp add: sched_step_def Let_def split: sum.splits)

lemma steps_loop_sustain_cong:
  assumes "\<not> staccato cfg1" "\<not> staccato cfg2" "q cfg1 = q cfg2"
  shows "steps_loop W scale cfg1 ss st = steps_loop W scale cfg2 ss st"
proof (induction ss arbitrary: st)
  case Nil
  show ?case by simp
next
  case (Cons s ss)
  show ?case
    by (simp add: sched_step_sustain_cong [OF assms] Cons.IH split: sum.splits)
qed

lemma scheduled_events_sustain_cong:
  assumes "\<not> staccato cfg1" "\<not> staccato cfg2" "q cfg1 = q cfg2" "bpm cfg1 = bpm cfg2"
  shows "scheduled_events steps row0 scale cfg1 = scheduled_events steps row0 scale cfg2"
proof -
  have "run_steps steps row0 scale cfg1 = run_steps steps row0 scale cfg2"
    using assms(4) by (simp add: run_steps_def init_state_def steps_loop_sustain_cong [OF assms(1-3)])
  moreover have "\<And>st. final_flush steps cfg1 st = final_flush steps cfg2 st"
    using assms(1-3) by (simp add: final_flush_def)
  ultimately show ?thesis
    by (simp add: scheduled_events_def cong: sum.case_cong)
qed

text \<open>
  Claim C9. A gate that is present but not positive selects the sustain branch: the
  events, for every step count, and the track are those of the same configuration
  with the gate absent; the staccato branch is taken only for a gate greater than 0.
\<close>

theorem nonpositive_gate_is_sustain:
  assumes "g \<le> 0"
  shows "\<not> staccato (cfg\<lparr>gate := Some g\<rparr>) \<and>
         scheduled_events steps row0 scale (cfg\<lparr>gate := Some g\<rparr>) =
         scheduled_events steps row0 scale (cfg\<lparr>gate := None\<rparr>) \<and>
         schedule_events row0 scale (cfg\<lparr>gate := Some g\<rparr>) =
         schedule_events row0 scale (cfg\<lparr>gate := None\<rparr>) \<and>
         (\<forall>g'. staccato (cfg\<lparr>gate := g'\<rparr>) \<longleftrightarrow> (\<exists>x. g' = Some x \<and> 0 < x))"
proof -
  have s1: "\<not> staccato (cfg\<lparr>gate := Some g\<rparr>)" using assms by (simp add: staccato_def)
  have s2: "\<not> staccato (cfg\<lparr>gate := None\<rparr>)" by (simp add: staccato_def)
  have ev: "\<And>steps. scheduled_events steps row0 scale (cfg\<lparr>gate := Some g\<rparr>) =
         scheduled_events steps row0 scale (cfg\<lparr>gate := None\<rparr>)"
    by (rule scheduled_events_sustain_cong [OF s1 s2]) simp_all
  have st: "steps_for_8_seconds (cfg\<lparr>gate := Some g\<rparr>) = steps_for_8_seconds (cfg\<lparr>gate := None\<rparr>)"
    by (simp add: steps_for_8_seconds_def seconds_per_step_def)
  have "schedule_events row0 scale (cfg\<lparr>gate := Some g\<rparr>) =
         schedule_events row0 scale (cfg\<lparr>gate := None\<rparr>)"
    by (simp add: schedule_events_def st ev cong: sum.case_cong)
  moreover have "\<forall>g'. staccato (cfg\<lparr>gate := g'\<rparr>) \<longleftrightarrow> (\<exists>x. g' = Some x \<and> 0 < x)"
    by (auto simp: staccato_def split: option.splits)
  ultimately show ?thesis using s1 ev by simp
qed

theorem nonpositive_gate_is_sustain_witness:
  "(0::rat) \<le> 0 \<and>
   schedule_events [0, 1, 0, 0] [60, 62, 63, 65]
     \<lparr>bpm = 60, ppq = 1, q = 4, gate = Some 0, filename = ''out.mid''\<rparr> =
   Inr [set_tempo 60 0, note_on 0 60 40 0, note_on 0 63 40 0, note_off 0 63 0 4,
        note_on 0 65 40 0, note_off 0 60 0 4, note_off 0 65 0 0]"
proof -
  have le: "(0::rat) \<le> 0" by simp
  have "schedule_events [0, 1, 0, 0] [60, 62, 63, 65]
          \<lparr>bpm = 60, ppq = 1, q = 4, gate = None, filename = ''out.mid''\<rparr> =
        Inr [set_tempo 60 0, note_on 0 60 40 0, note_on 0 63 40 0, note_off 0 63 0 4,
             note_on 0 65 40 0, note_off 0 60 0 4, note_off 0 65 0 0]"
    by code_simp
  with nonpositive_gate_is_sustain [OF le,
      of "\<lparr>bpm = 60, ppq = 1, q = 4, gate = None, filename = ''out.mid''\<rparr>" _
         "[0, 1, 0, 0]" "[60, 62, 63, 65]"]
  show ?thesis by simp
qed

lemma sort_events_sorted: "sorted (map sort_key_item (sort_events events))"
  by (simp add: sort_events_def)

lemma sort_key_item_le:
  "sort_key_item (t1, m1) \<le> sort_key_item (t2, m2) \<longleftrightarrow> t1 < t2 \<or> (t1 = t2 \<and> pri m1 \<le> pri m2)"
  by (auto simp: sort_key_item_def less_eq_prod_def)

lemma sort_events_nth_mono:
  assumes "i < j" "j < length (sort_events events)"
  shows "sort_key_item (sort_events events ! i) \<le> sort_key_item (sort_events events ! j)"
proof -
  from assms have "map sort_key_item (sort_events events) ! i \<le>
                   map sort_key_item (sort_events events) ! j"
    by (intro sorted_nth_mono [OF sort_events_sorted]) simp_all
  with assms show ?thesis by simp
qed

text \<open>
  Claim C6. In the final event sequence the events are in ascending order of their
  absolute tick, and of two events with the same tick the later one is a tempo
  message only if the earlier one is, and the later one is a note-stop only if the
  earlier one is no note-start: tempo before note-stop before note-start.
\<close>

theorem final_events_ordered:
  assumes "scheduled_events steps row0 scale cfg = Inr evs" "i < j" "j < length evs"
  shows "fst (evs ! i) \<le> fst (evs ! j) \<and>
         (fst (evs ! i) = fst (evs ! j) \<longrightarrow>
            pri (snd (evs ! i)) \<le> pri (snd (evs ! j)) \<and>
            (is_set_tempo (snd (evs ! j)) \<longrightarrow> is_set_tempo (snd (evs ! i))) \<and>
            (is_note_off (snd (evs ! j)) \<longrightarrow> \<not> is_note_on (snd (evs ! i))))"
proof -
  from assms(1) obtain st where evs: "evs = sort_events (st_events (final_flush steps cfg st))"
    by (auto simp: scheduled_events_def split: sum.splits)
  obtain t1 m1 where e1: "evs ! i = (t1, m1)" by (cases "evs ! i")
  obtain t2 m2 where e2: "evs ! j = (t2, m2)" by (cases "evs ! j")
  from sort_events_nth_mono [of i j] assms(2,3) evs
  have "sort_key_item (evs ! i) \<le> sort_key_item (evs ! j)" by simp
  then have le: "t1 < t2 \<or> (t1 = t2 \<and> pri m1 \<le> pri m2)"
    by (simp add: e1 e2 sort_key_item_le)
  then have "t1 \<le> t2" by auto
  moreover have "t1 = t2 \<longrightarrow> pri m1 \<le> pri m2" using le by auto
  moreover have "pri m1 \<le> pri m2 \<longrightarrow> (is_set_tempo m2 \<longrightarrow> is_set_tempo m1) \<and>
                   (is_note_off m2 \<longrightarrow> \<not> is_note_on m1)"
    by (cases m1; cases m2) simp_all
  ultimately show ?thesis by (simp add: e1 e2)
qed

lemma sustain_example_events:
  "scheduled_events 2 [0, 1, 0, 0] [60, 62, 63, 65]
     \<lparr>bpm = 60, ppq = 1, q = 4, gate = None, filename = ''out.mid''\<rparr> =
   Inr [(0, set_tempo 60 0), (0, note_on 0 60 40 0), (0, note_on 0 63 40 0),
        (4, note_off 0 63 0 0), (4, note_on 0 65 40 0), (8, note_off 0 60 0 0),
        (8, note_off 0 65 0 0)]"
  by code_simp

theorem final_events_ordered_witness:
  "scheduled_events 2 [0, 1, 0, 0] [60, 62, 63, 65]
     \<lparr>bpm = 60, ppq = 1, q = 4, gate = None, filename = ''out.mid''\<rparr> =
   Inr [(0, set_tempo 60 0), (0, note_on 0 60 40 0), (0, note_on 0 63 40 0),
        (4, note_off 0 63 0 0), (4, note_on 0 65 40 0), (8, note_off 0 60 0 0),
        (8, note_off 0 65 0 0)] \<and>
   (3::nat) < 4 \<and>
   (4::nat) < length [(0::int, set_tempo 60 0), (0, note_on 0 60 40 0), (0, note_on 0 63 40 0),
        (4, note_off 0 63 0 0), (4, note_on 0 65 40 0), (8, note_off 0 60 0 0),
        (8, note_off 0 65 0 0)] \<and>
   pri (note_off 0 63 0 0) \<le> pri (note_on 0 65 40 0) \<and>
   \<not> is_set_tempo (note_on 0 65 40 0)"
proof -
  have "(3::nat) < 4" by simp
  from final_events_ordered [OF sustain_example_events this]
  have "pri (note_off 0 63 0 0) \<le> pri (note_on 0 65 40 0)" by simp
  with sustain_example_events show ?thesis by simp
qed

section \<open>Timeline serializer\<close>

lemma track_loop_eq:
  "track_loop last_tick es track =
   track @ map (\<lambda>i. set_time (snd (es ! i))
                      (max 0 (fst (es ! i) - (if i = 0 then last_tick else fst (es ! (i - 1))))))
             [0..<length es]"
proof (induction es arbitrary: last_tick track)
  case Nil
  show ?case by simp
next
  case (Cons e es)
  obtain abs_tick msg where e: "e = (abs_tick, msg)" by (cases e)
  let ?F = "\<lambda>i. set_time (snd ((e # es) ! i))
                (max 0 (fst ((e # es) ! i) - (if i = 0 then last_tick else fst ((e # es) ! (i - 1)))))"
  let ?G = "\<lambda>i. set_time (snd (es ! i))
                (max 0 (fst (es ! i) - (if i = 0 then abs_tick else fst (es ! (i - 1)))))"
  have "map ?F [0..<length (e # es)] = ?F 0 # map (\<lambda>i. ?F (Suc i)) [0..<length es]"
    by (simp only: length_Cons map_upt_Suc)
  moreover have "?F 0 = set_time msg (max 0 (abs_tick - last_tick))"
    by (simp add: e)
  moreover have "?F (Suc i) = ?G i" for i
    by (cases i) (simp_all add: e)
  ultimately have "map ?F [0..<length (e # es)] =
      set_time msg (max 0 (abs_tick - last_tick)) # map ?G [0..<length es]"
    by simp
  moreover have "track_loop last_tick (e # es) track =
      (track @ [set_time msg (max 0 (abs_tick - last_tick))]) @ map ?G [0..<length es]"
    by (simp only: e track_loop.simps Let_def Cons.IH)
  ultimately show ?case by simp
qed

text \<open>
  Claim C3, as amended. The serialisation raises nothing: every event gets the time
  \<^verbatim>\<open>max(0, delta)\<close>, where the delta is its absolute tick minus the tick of the event
  before it (0 before the first one). A negative delta is stored as 0; a delta that
  is not negative is stored as it is.
\<close>

theorem write_track_clamps_delta:
  "length (write_track evs) = length evs \<and>
   (\<forall>i<length evs.
      write_track evs ! i =
        set_time (snd (evs ! i))
          (max 0 (fst (evs ! i) - (if i = 0 then 0 else fst (evs ! (i - 1))))) \<and>
      msg_time (write_track evs ! i) =
        (if fst (evs ! i) - (if i = 0 then 0 else fst (evs ! (i - 1))) < 0 then 0
         else fst (evs ! i) - (if i = 0 then 0 else fst (evs ! (i - 1)))))"
proof -
  have t: "msg_time (set_time m t) = t" for m t by (cases m) simp_all
  show ?thesis
    by (simp add: write_track_def track_loop_eq t max_def)
qed

theorem write_track_clamps_delta_witness:
  "(1::nat) < length [(5::int, note_on 0 60 40 0), (3, note_off 0 60 0 0)] \<and>
   write_track [(5, note_on 0 60 40 0), (3, note_off 0 60 0 0)] ! 1 = note_off 0 60 0 0 \<and>
   msg_time (write_track [(5, note_on 0 60 40 0), (3, note_off 0 60 0 0)] ! 1) = 0"
proof -
  have l: "(1::nat) < length [(5::int, note_on 0 60 40 0), (3, note_off 0 60 0 0)]" by simp
  from write_track_clamps_delta [of "[(5, note_on 0 60 40 0), (3, note_off 0 60 0 0)]"] l
  have "write_track [(5, note_on 0 60 40 0), (3, note_off 0 60 0 0)] ! 1 =
        set_time (snd ([(5::int, note_on 0 60 40 0), (3, note_off 0 60 0 0)] ! 1))
          (max 0 (fst ([(5::int, note_on 0 60 40 0), (3, note_off 0 60 0 0)] ! 1) -
            (if (1::nat) = 0 then 0
             else fst ([(5::int, note_on 0 60 40 0), (3, note_off 0 60 0 0)] ! (1 - 1)))))"
    by blast
  then have "write_track [(5, note_on 0 60 40 0), (3, note_off 0 60 0 0)] ! 1 = note_off 0 60 0 0"
    by simp
  then show ?thesis by simp
qed

text \<open>
  Claim C3 as stated fails. A second event at tick 3 after one at tick 5 has the
  delta -2; the serialisation stores the time 0 for it and raises nothing, and the
  track is the one of a second event at tick 5, whose delta is 0. The whole function
  does the same on a configuration whose ticks descend: the first event of the track
  below has the absolute tick -8, the delta -8 and the time 0.
\<close>

theorem negative_delta_counterexample:
  "write_track [(5, note_on 0 60 40 0), (3, note_off 0 60 0 0)] =
     [note_on 0 60 40 5, note_off 0 60 0 0] \<and>
   write_track [(5, note_on 0 60 40 0), (5, note_off 0 60 0 0)] =
     [note_on 0 60 40 5, note_off 0 60 0 0] \<and>
   scheduled_events 2 [0, 1, 0] [60, 62, 63]
     \<lparr>bpm = 60, ppq = - 1, q = - 4, gate = None, filename = ''out.mid''\<rparr> =
     Inr [(- 8, note_off 0 60 0 0), (- 8, note_off 0 63 0 0), (0, set_tempo 60 0),
          (0, note_on 0 60 40 0), (0, note_on 0 63 40 0)] \<and>
   schedule_events [0, 1, 0] [60, 62, 63]
     \<lparr>bpm = 60, ppq = - 1, q = - 4, gate = None, filename = ''out.mid''\<rparr> =
     Inr [note_off 0 60 0 0, note_off 0 63 0 0, set_tempo 60 8,
          note_on 0 60 40 0, note_on 0 63 40 0]"
  by code_simp

section \<open>Configuration errors\<close>




section \<open>Scheduler: loops and invariants\<close>

lemma ages_ok_update: "ages_ok age \<Longrightarrow> 0 \<le> v \<Longrightarrow> ages_ok (age[i := v])"
  unfolding ages_ok_def list_all_iff
  using set_update_subset_insert [of age i v] by auto

lemma ages_ok_nth: "ages_ok age \<Longrightarrow> i < length age \<Longrightarrow> 0 \<le> age ! i"
  by (simp add: ages_ok_def list_all_length)

lemma births_ok_update:
  assumes "births_ok row nxt age births" "nxt ! i = 1 \<longrightarrow> row ! i \<noteq> 1 \<longrightarrow> v = 1"
  shows "births_ok row nxt (age[i := v]) births"
  unfolding births_ok_def list_all_iff
proof (intro ballI)
  fix x assume x: "x \<in> set births"
  obtain nt idx where p: "x = (nt, idx)" by (cases x)
  from assms(1) x p have h: "idx < length age" "age ! idx = 1" "nxt ! idx = 1" "row ! idx \<noteq> 1"
    by (auto simp: births_ok_def list_all_iff)
  have "age[i := v] ! idx = 1"
  proof (cases "i = idx")
    case True
    with h assms(2) show ?thesis by simp
  next
    case False
    with h show ?thesis by simp
  qed
  with h p show "case x of (note, idx) \<Rightarrow>
      idx < length (age[i := v]) \<and> age[i := v] ! idx = 1 \<and> nxt ! idx = 1 \<and> row ! idx \<noteq> 1"
    by simp
qed

lemma births_ok_snoc:
  assumes "births_ok row nxt age births" "i < length age" "age ! i = 1" "nxt ! i = 1" "row ! i \<noteq> 1"
  shows "births_ok row nxt age (births @ [(note, i)])"
  using assms by (simp add: births_ok_def)

lemma classify_loop_inv:
  assumes "classify_loop row nxt scale js (age, births, deaths) = Inr (age', births', deaths')"
    and "\<forall>i\<in>set js. i < length age" and "ages_ok age" and "births_ok row nxt age births"
  shows "length age' = length age \<and> ages_ok age' \<and> births_ok row nxt age' births'"
  using assms
proof (induction js arbitrary: age births deaths)
  case Nil
  then show ?case by simp
next
  case (Cons i js)
  from Cons.prems(2) have i: "i < length age" and js: "\<forall>j\<in>set js. j < length age" by simp_all
  from Cons.prems(1) have sc: "\<not> length scale \<le> i"
    by (auto simp: Let_def split: if_splits)
  consider (birth) "nxt ! i = 1" "row ! i \<noteq> 1" | (cont) "nxt ! i = 1" "row ! i = 1"
    | (death) "nxt ! i \<noteq> 1" "row ! i = 1" | (off) "nxt ! i \<noteq> 1" "row ! i \<noteq> 1"
    by blast
  then show ?case
  proof cases
    case birth
    with Cons.prems(1) sc
    have r: "classify_loop row nxt scale js (age[i := 1], births @ [(scale ! i, i)], deaths) =
          Inr (age', births', deaths')" by (simp add: Let_def)
    have "births_ok row nxt (age[i := 1]) (births @ [(scale ! i, i)])"
      using birth i Cons.prems(4)
      by (intro births_ok_snoc births_ok_update) simp_all
    with Cons.IH [OF r] js Cons.prems(3) show ?thesis
      by (simp add: ages_ok_update)
  next
    case cont
    with Cons.prems(1) sc
    have r: "classify_loop row nxt scale js (age[i := age ! i + 1], births, deaths) =
          Inr (age', births', deaths')" by (simp add: Let_def)
    have "births_ok row nxt (age[i := age ! i + 1]) births"
      using cont Cons.prems(4) by (intro births_ok_update) simp_all
    moreover have "ages_ok (age[i := age ! i + 1])"
      using ages_ok_nth [OF Cons.prems(3) i] Cons.prems(3) by (intro ages_ok_update) simp_all
    ultimately show ?thesis using Cons.IH [OF r] js by simp
  next
    case death
    with Cons.prems(1) sc
    have r: "classify_loop row nxt scale js (age[i := 0], births, deaths @ [(scale ! i, i)]) =
          Inr (age', births', deaths')" by (simp add: Let_def)
    have "births_ok row nxt (age[i := 0]) births"
      using death Cons.prems(4) by (intro births_ok_update) simp_all
    with Cons.IH [OF r] js Cons.prems(3) show ?thesis
      by (simp add: ages_ok_update)
  next
    case off
    with Cons.prems(1) sc
    have r: "classify_loop row nxt scale js (age, births, deaths) =
          Inr (age', births', deaths')" by (simp add: Let_def)
    from Cons.IH [OF r] js Cons.prems(3,4) show ?thesis by simp
  qed
qed

lemma vel_ok_range: "vel_ok v \<Longrightarrow> 40 \<le> v \<and> v \<le> 110"
  by (auto simp: vel_ok_def)

lemma velocities_ok_append:
  "velocities_ok (xs @ ys) \<longleftrightarrow> velocities_ok xs \<and> velocities_ok ys"
  unfolding velocities_ok_def set_append Un_iff by blast

lemma births_loop_eq:
  "births_loop b age births (ev, act) =
     (ev @ map (\<lambda>(n, idx). (b, note_on 0 n (min (30 + 10 * age ! idx) 110) 0)) births,
      act \<union> fst ` set births)"
  by (induction births arbitrary: ev act) (auto simp: Let_def)

lemma deaths_loop_shape:
  "\<exists>ns. deaths_loop b ds (ev, act) =
          (ev @ map (\<lambda>n. (b, note_off 0 n 0 0)) ns, act - fst ` set ds) \<and>
        distinct ns \<and> set ns = act \<inter> fst ` set ds"
proof (induction ds arbitrary: ev act)
  case Nil
  show ?case by simp
next
  case (Cons d ds)
  obtain n idx where d: "d = (n, idx)" by (cases d)
  show ?case
  proof (cases "n \<in> act")
    case True
    from Cons.IH [of "ev @ [(b, note_off 0 n 0 0)]" "act - {n}"]
    obtain ns where ns: "deaths_loop b ds (ev @ [(b, note_off 0 n 0 0)], act - {n}) =
          ((ev @ [(b, note_off 0 n 0 0)]) @ map (\<lambda>n. (b, note_off 0 n 0 0)) ns,
           act - {n} - fst ` set ds)" "distinct ns" "set ns = (act - {n}) \<inter> fst ` set ds"
      by (elim exE conjE) (rule that, assumption+)
    have "act - {n} - fst ` set ds = act - fst ` set (d # ds)"
      by (auto simp: d)
    then have "deaths_loop b (d # ds) (ev, act) =
          (ev @ map (\<lambda>n. (b, note_off 0 n 0 0)) (n # ns), act - fst ` set (d # ds))"
      using True ns(1) by (simp add: d)
    moreover have "distinct (n # ns)" using ns(2,3) by simp
    moreover have "set (n # ns) = act \<inter> fst ` set (d # ds)"
      using True ns(3) by (auto simp: d)
    ultimately show ?thesis by blast
  next
    case False
    from Cons.IH [of ev act]
    obtain ns where ns: "deaths_loop b ds (ev, act) =
          (ev @ map (\<lambda>n. (b, note_off 0 n 0 0)) ns, act - fst ` set ds)"
          "distinct ns" "set ns = act \<inter> fst ` set ds"
      by (elim exE conjE) (rule that, assumption+)
    have "act - fst ` set ds = act - fst ` set (d # ds)"
      using False by (auto simp: d)
    then have "deaths_loop b (d # ds) (ev, act) =
          (ev @ map (\<lambda>n. (b, note_off 0 n 0 0)) ns, act - fst ` set (d # ds))"
      using False ns(1) by (simp add: d)
    moreover have "set ns = act \<inter> fst ` set (d # ds)"
      using False ns(3) by (auto simp: d)
    ultimately show ?thesis using ns(2) by blast
  qed
qed

lemma staccato_loop_shape:
  assumes "staccato_loop row nxt scale b off js (age, ev) = Inr (age', ev')"
    and "\<forall>i\<in>set js. i < length age" and "ages_ok age"
  shows "length age' = length age \<and> ages_ok age' \<and>
         (\<exists>vs. length vs = length (filter (\<lambda>i. nxt ! i = 1) js) \<and> list_all vel_ok vs \<and>
            ev' = ev @ concat (map (\<lambda>(i, v). [(b, note_on 0 (scale ! i) v 0),
                                                 (off, note_off 0 (scale ! i) 0 0)])
                                (zip (filter (\<lambda>i. nxt ! i = 1) js) vs)))"
  using assms
proof (induction js arbitrary: age ev)
  case Nil
  then show ?case by simp
next
  case (Cons i js)
  from Cons.prems(2) have i: "i < length age" and js: "\<forall>j\<in>set js. j < length age" by simp_all
  show ?case
  proof (cases "nxt ! i = 1")
    case True
    let ?a = "if row ! i = 1 then age ! i + 1 else 1"
    let ?age = "age[i := ?a]"
    let ?v = "min (30 + 10 * ?a) 110"
    let ?new = "[(b, note_on 0 (scale ! i) ?v 0), (off, note_off 0 (scale ! i) 0 0)]"
    from Cons.prems(1) True have sc: "\<not> length scale \<le> i"
      by (auto simp: Let_def split: if_splits)
    have a1: "1 \<le> ?a" using ages_ok_nth [OF Cons.prems(3) i] by simp
    have nth: "?age ! i = ?a" using i by simp
    from Cons.prems(1) True sc
    have r: "staccato_loop row nxt scale b off js (?age, ev @ ?new) = Inr (age', ev')"
      by (simp add: Let_def nth del: list_update_overwrite)
    have ok: "ages_ok ?age" using a1 Cons.prems(3) by (intro ages_ok_update) simp_all
    from Cons.IH [OF r _ ok] js
    obtain vs where vs: "length age' = length age" "ages_ok age'"
      "length vs = length (filter (\<lambda>i. nxt ! i = 1) js)" "list_all vel_ok vs"
      "ev' = (ev @ ?new) @ concat (map (\<lambda>(i, v). [(b, note_on 0 (scale ! i) v 0),
                                                 (off, note_off 0 (scale ! i) 0 0)])
                                (zip (filter (\<lambda>i. nxt ! i = 1) js) vs))"
      by auto
    have "vel_ok ?v" unfolding vel_ok_def using a1 by blast
    with vs True show ?thesis
      by (intro conjI exI [of _ "?v # vs"]) simp_all
  next
    case False
    with Cons.prems(1)
    have r: "staccato_loop row nxt scale b off js (age[i := 0], ev) = Inr (age', ev')"
      by simp
    have ok: "ages_ok (age[i := 0])" using Cons.prems(3) by (intro ages_ok_update) simp_all
    from Cons.IH [OF r _ ok] js False show ?thesis by simp
  qed
qed

lemma sched_step_sustainE:
  assumes "sched_step W scale cfg s st = Inr st'" "\<not> staccato cfg"
  obtains nxt age' births deaths where
    "next_rule190_toroidal (st_row st) = Inr nxt"
    "classify_loop (st_row st) nxt scale [0..<W] (st_age st, [], []) = Inr (age', births, deaths)"
    "st' = \<lparr>st_row = nxt, st_age = age',
           st_events = fst (births_loop (int s * q cfg) age' births
                              (deaths_loop (int s * q cfg) deaths (st_events st, st_active_notes st))),
           st_active_notes = snd (births_loop (int s * q cfg) age' births
                              (deaths_loop (int s * q cfg) deaths (st_events st, st_active_notes st)))\<rparr>"
  using assms
  by (auto simp: sched_step_def Let_def split: sum.splits prod.splits)

lemma sched_step_staccatoE:
  assumes "sched_step W scale cfg s st = Inr st'" "staccato cfg"
  obtains nxt gf age' ev' where
    "next_rule190_toroidal (st_row st) = Inr nxt"
    "gate_frac cfg = Some gf"
    "staccato_loop (st_row st) nxt scale (int s * q cfg)
       (int s * q cfg + py_int (of_int (q cfg) * gf)) [0..<W] (st_age st, st_events st) =
     Inr (age', ev')"
    "st' = \<lparr>st_row = nxt, st_age = age', st_events = ev', st_active_notes = st_active_notes st\<rparr>"
  using assms
  by (auto simp: sched_step_def Let_def split: sum.splits prod.splits option.splits)

lemma steps_loop_invariant:
  assumes "steps_loop W scale cfg ss st = Inr st'" "P st"
    and "\<And>s st st'. P st \<Longrightarrow> sched_step W scale cfg s st = Inr st' \<Longrightarrow> P st'"
  shows "P st'"
  using assms(1,2)
proof (induction ss arbitrary: st)
  case Nil
  then show ?case by simp
next
  case (Cons s ss)
  from Cons.prems(1) obtain st1 where s1: "sched_step W scale cfg s st = Inr st1"
    and r: "steps_loop W scale cfg ss st1 = Inr st'"
    by (auto split: sum.splits)
  from assms(3) [OF Cons.prems(2) s1] have "P st1" .
  from Cons.IH [OF r this] show ?case .
qed


lemma velocities_ok_births:
  assumes "births_ok row nxt age births"
  shows "velocities_ok (map (\<lambda>(n, idx). (b, note_on 0 n (min (30 + 10 * age ! idx) 110) 0)) births)"
proof -
  have "vel_ok (min (30 + 10 * age ! idx) 110)" if "(n, idx) \<in> set births" for n idx
  proof -
    from assms that have "age ! idx = 1" by (auto simp: births_ok_def list_all_iff)
    then show ?thesis unfolding vel_ok_def by (intro exI [of _ 1]) simp
  qed
  then show ?thesis by (auto simp: velocities_ok_def)
qed

lemma velocities_ok_offs: "velocities_ok (map (\<lambda>n. (b, note_off 0 n 0 0)) ns)"
  by (auto simp: velocities_ok_def)

lemma velocities_ok_pairs:
  assumes "list_all vel_ok vs"
  shows "velocities_ok (concat (map (\<lambda>(i, v). [(b, note_on 0 (f i) v 0), (off, note_off 0 (f i) 0 0)])
                                  (zip js vs)))"
  using assms by (auto simp: velocities_ok_def list_all_iff dest: set_zip_rightD)

lemma sched_step_inv:
  assumes "sched_inv W st" "sched_step W scale cfg s st = Inr st'"
  shows "sched_inv W st'"
proof (cases "staccato cfg")
  case False
  from assms(2) False obtain nxt age' births deaths where
    n: "next_rule190_toroidal (st_row st) = Inr nxt" and
    c: "classify_loop (st_row st) nxt scale [0..<W] (st_age st, [], []) = Inr (age', births, deaths)" and
    s: "st' = \<lparr>st_row = nxt, st_age = age',
           st_events = fst (births_loop (int s * q cfg) age' births
                              (deaths_loop (int s * q cfg) deaths (st_events st, st_active_notes st))),
           st_active_notes = snd (births_loop (int s * q cfg) age' births
                              (deaths_loop (int s * q cfg) deaths (st_events st, st_active_notes st)))\<rparr>"
    by (rule sched_step_sustainE)
  have "births_ok (st_row st) nxt (st_age st) []" by (simp add: births_ok_def)
  from classify_loop_inv [OF c _ _ this] assms(1)
  have a: "length age' = W" "ages_ok age'" "births_ok (st_row st) nxt age' births"
    by (simp_all add: sched_inv_def)
  obtain ns where d: "deaths_loop (int s * q cfg) deaths (st_events st, st_active_notes st) =
      (st_events st @ map (\<lambda>n. (int s * q cfg, note_off 0 n 0 0)) ns,
       st_active_notes st - fst ` set deaths)"
    using deaths_loop_shape [of "int s * q cfg" deaths "st_events st" "st_active_notes st"] by blast
  have "velocities_ok (st_events st')"
    using assms(1) velocities_ok_births [OF a(3)]
    by (simp add: s d births_loop_eq velocities_ok_append velocities_ok_offs sched_inv_def)
  with a toroidal_cells_of_Inr(1) [OF n] assms(1) show ?thesis
    by (simp add: sched_inv_def s)
next
  case True
  from assms(2) True obtain nxt gf age' ev' where
    n: "next_rule190_toroidal (st_row st) = Inr nxt" and
    l: "staccato_loop (st_row st) nxt scale (int s * q cfg)
       (int s * q cfg + py_int (of_int (q cfg) * gf)) [0..<W] (st_age st, st_events st) =
     Inr (age', ev')" and
    s: "st' = \<lparr>st_row = nxt, st_age = age', st_events = ev', st_active_notes = st_active_notes st\<rparr>"
    by (rule sched_step_staccatoE)
  from staccato_loop_shape [OF l] assms(1)
  obtain vs where a: "length age' = W" "ages_ok age'" "list_all vel_ok vs"
    "ev' = st_events st @ concat (map (\<lambda>(i, v). [(int s * q cfg, note_on 0 (scale ! i) v 0),
             (int s * q cfg + py_int (of_int (q cfg) * gf), note_off 0 (scale ! i) 0 0)])
                                (zip (filter (\<lambda>i. nxt ! i = 1) [0..<W]) vs))"
    by (auto simp: sched_inv_def)
  have "velocities_ok ev'"
    using assms(1) velocities_ok_pairs [OF a(3)]
    by (simp add: a(4) velocities_ok_append sched_inv_def)
  with a toroidal_cells_of_Inr(1) [OF n] assms(1) show ?thesis
    by (simp add: sched_inv_def s)
qed

lemma init_state_inv: "sched_inv (length row0) (init_state row0 cfg)"
  by (simp add: sched_inv_def init_state_def ages_ok_def velocities_ok_def list_all_iff)

lemma run_steps_inv:
  assumes "run_steps steps row0 scale cfg = Inr st"
  shows "sched_inv (length row0) st"
  using assms init_state_inv sched_step_inv
  unfolding run_steps_def by (rule steps_loop_invariant)

lemma final_flush_velocities:
  assumes "velocities_ok (st_events st)"
  shows "velocities_ok (st_events (final_flush steps cfg st))"
  using assms by (simp add: final_flush_def Let_def velocities_ok_append velocities_ok_offs)

lemma set_sort_events: "set (sort_events evs) = set evs"
  by (simp add: sort_events_def)

lemma write_track_note_on:
  assumes "note_on ch n v t \<in> set (write_track evs)"
  shows "\<exists>b t'. (b, note_on ch n v t') \<in> set evs"
proof -
  from assms obtain i where i: "i < length evs"
    and m: "set_time (snd (evs ! i))
              (max 0 (fst (evs ! i) - (if i = 0 then 0 else fst (evs ! (i - 1))))) = note_on ch n v t"
    by (auto simp: write_track_def track_loop_eq)
  from m have "\<exists>t'. snd (evs ! i) = note_on ch n v t'"
    by (cases "snd (evs ! i)") simp_all
  then obtain t' where "evs ! i = (fst (evs ! i), note_on ch n v t')"
    by (metis prod.collapse)
  with i show ?thesis by (metis nth_mem)
qed

text \<open>
  Claim C10. Every note-start of the final events, in sustain and in staccato mode,
  carries the velocity \<open>min (30 + 10 * age) 110\<close> of an age of at least 1, so that it
  lies between 40 and 110; the same holds for every note-start of the track.
\<close>

theorem note_on_velocity_range:
  assumes "scheduled_events steps row0 scale cfg = Inr evs"
    and "(b, note_on ch n v t) \<in> set evs"
  shows "(\<exists>a\<ge>1. v = min (30 + 10 * a) 110) \<and> 40 \<le> v \<and> v \<le> 110 \<and>
         (\<forall>track ch' n' v' t'.
            schedule_events row0 scale cfg = Inr track \<and> note_on ch' n' v' t' \<in> set track \<longrightarrow>
            40 \<le> v' \<and> v' \<le> 110)"
proof -
  have ok: "velocities_ok evs'" if "scheduled_events steps' row0 scale cfg = Inr evs'"
    for steps' evs'
  proof -
    from that obtain st where st: "run_steps steps' row0 scale cfg = Inr st"
      and e: "evs' = sort_events (st_events (final_flush steps' cfg st))"
      by (auto simp: scheduled_events_def split: sum.splits)
    from run_steps_inv [OF st] have "velocities_ok (st_events st)" by (simp add: sched_inv_def)
    from final_flush_velocities [OF this] show ?thesis
      by (simp add: e velocities_ok_def set_sort_events)
  qed
  from ok [OF assms(1)] assms(2) have v: "vel_ok v" unfolding velocities_ok_def by blast
  have "40 \<le> v' \<and> v' \<le> 110"
    if "schedule_events row0 scale cfg = Inr track" "note_on ch' n' v' t' \<in> set track"
    for track ch' n' v' t'
  proof -
    from that(1) obtain steps' evs' where e: "scheduled_events steps' row0 scale cfg = Inr evs'"
      and t: "track = write_track evs'"
      by (auto simp: schedule_events_def split: sum.splits)
    from write_track_note_on that(2) t obtain b' t'' where "(b', note_on ch' n' v' t'') \<in> set evs'"
      by blast
    with ok [OF e] have "vel_ok v'" unfolding velocities_ok_def by blast
    then show ?thesis by (rule vel_ok_range)
  qed
  with v vel_ok_range [OF v] show ?thesis
    unfolding vel_ok_def by blast
qed

lemma staccato_example_events:
  "scheduled_events 2 [0, 1, 0, 0] [60, 62, 63, 65]
     \<lparr>bpm = 60, ppq = 1, q = 4, gate = Some (1 / 2), filename = ''out.mid''\<rparr> =
   Inr [(0, set_tempo 60 0), (0, note_on 0 60 40 0), (0, note_on 0 62 40 0),
        (0, note_on 0 63 40 0), (2, note_off 0 60 0 0), (2, note_off 0 62 0 0),
        (2, note_off 0 63 0 0), (4, note_on 0 60 50 0), (4, note_on 0 62 50 0),
        (4, note_on 0 65 40 0), (6, note_off 0 60 0 0), (6, note_off 0 62 0 0),
        (6, note_off 0 65 0 0)]"
  by code_simp

theorem note_on_velocity_range_witness:
  "scheduled_events 2 [0, 1, 0, 0] [60, 62, 63, 65]
     \<lparr>bpm = 60, ppq = 1, q = 4, gate = Some (1 / 2), filename = ''out.mid''\<rparr> =
   Inr [(0, set_tempo 60 0), (0, note_on 0 60 40 0), (0, note_on 0 62 40 0),
        (0, note_on 0 63 40 0), (2, note_off 0 60 0 0), (2, note_off 0 62 0 0),
        (2, note_off 0 63 0 0), (4, note_on 0 60 50 0), (4, note_on 0 62 50 0),
        (4, note_on 0 65 40 0), (6, note_off 0 60 0 0), (6, note_off 0 62 0 0),
        (6, note_off 0 65 0 0)] \<and>
   (4, note_on 0 60 50 0) \<in> set [(0::int, set_tempo 60 0), (0, note_on 0 60 40 0),
        (0, note_on 0 62 40 0),
        (0, note_on 0 63 40 0), (2, note_off 0 60 0 0), (2, note_off 0 62 0 0),
        (2, note_off 0 63 0 0), (4, note_on 0 60 50 0), (4, note_on 0 62 50 0),
        (4, note_on 0 65 40 0), (6, note_off 0 60 0 0), (6, note_off 0 62 0 0),
        (6, note_off 0 65 0 0)] \<and>
   (\<exists>a\<ge>1. (50::int) = min (30 + 10 * a) 110) \<and> (40::int) \<le> 50 \<and> (50::int) \<le> 110"
proof -
  have m: "(4, note_on 0 60 50 0) \<in> set [(0::int, set_tempo 60 0), (0, note_on 0 60 40 0),
        (0, note_on 0 62 40 0),
        (0, note_on 0 63 40 0), (2, note_off 0 60 0 0), (2, note_off 0 62 0 0),
        (2, note_off 0 63 0 0), (4, note_on 0 60 50 0), (4, note_on 0 62 50 0),
        (4, note_on 0 65 40 0), (6, note_off 0 60 0 0), (6, note_off 0 62 0 0),
        (6, note_off 0 65 0 0)]"
    by simp
  from note_on_velocity_range [OF staccato_example_events m]
  have "(\<exists>a\<ge>1. (50::int) = min (30 + 10 * a) 110) \<and> (40::int) \<le> 50 \<and> (50::int) \<le> 110"
    by blast
  with staccato_example_events m show ?thesis by blast
qed

section \<open>Staccato mode\<close>

lemma toroidal_steps_length:
  "toroidal_steps t row = Inr r \<Longrightarrow> length r = length row"
proof (induction t arbitrary: r)
  case 0
  then show ?case by simp
next
  case (Suc t)
  then obtain r' where "toroidal_steps t row = Inr r'" "next_rule190_toroidal r' = Inr r"
    by (auto split: sum.splits)
  with Suc.IH [of r'] toroidal_cells_of_Inr(1) [of r' r] show ?case by simp
qed











section \<open>Sustain mode\<close>












lemma sort_key_item_le_pair:
  "sort_key_item (t1, m1) \<le> (t2, p) \<longleftrightarrow> t1 < t2 \<or> (t1 = t2 \<and> pri m1 \<le> p)"
  by (auto simp: sort_key_item_def less_eq_prod_def)








section \<open>Validation math\<close>

lemma cone_pattern_step:
  assumes "0 \<le> t"
  shows "rule190_table (cone_pattern t (j - 2)) (cone_pattern t (j - 1)) (cone_pattern t j) =
         cone_pattern (t + 1) j"
proof -
  have "j mod 4 = 0 \<or> j mod 4 = 1 \<or> j mod 4 = 2 \<or> j mod 4 = 3"
    by presburger
  then consider "j mod 4 = 0" | "j mod 4 = 1" | "j mod 4 = 2" | "j mod 4 = 3"
    by blast
  then show ?thesis
  proof cases
    case 1
    then have m: "(j - 2) mod 4 = 2" "(j - 1) mod 4 = 3" by presburger+
    show ?thesis using assms 1 m
      by (simp add: cone_pattern_def rule190_table_def; presburger)
  next
    case 2
    then have m: "(j - 2) mod 4 = 3" "(j - 1) mod 4 = 0" by presburger+
    show ?thesis using assms 2 m
      by (simp add: cone_pattern_def rule190_table_def; presburger)
  next
    case 3
    then have m: "(j - 2) mod 4 = 0" "(j - 1) mod 4 = 1" by presburger+
    show ?thesis using assms 3 m
      by (simp add: cone_pattern_def rule190_table_def; presburger)
  next
    case 4
    then have m: "(j - 2) mod 4 = 1" "(j - 1) mod 4 = 2" by presburger+
    show ?thesis using assms 4 m
      by (simp add: cone_pattern_def rule190_table_def; presburger)
  qed
qed

lemma cone_pattern_binary: "cone_pattern t j = 0 \<or> cone_pattern t j = 1"
  by (simp add: cone_pattern_def)

lemma binary_cone_row: "binary_row (cone_row W c t)"
  unfolding binary_row_def cone_row_def list_all_iff
  using cone_pattern_binary by auto

lemma cone_row_nth:
  "i < W \<Longrightarrow> cone_row W c t ! i = cone_pattern (int t) (int i + int t - int c)"
  by (simp add: cone_row_def)

lemma length_cone_row: "length (cone_row W c t) = W"
  by (simp add: cone_row_def)

lemma fixed0_step_cone:
  assumes "Suc t \<le> c" "c + t < W"
  shows "next_rule190_fixed0 (cone_row W c t) = Inr (cone_row W c (Suc t))"
proof -
  let ?row = "cone_row W c t"
  let ?f = "\<lambda>i. rule190_table (if 0 < i then ?row ! (i - 1) else 0) (?row ! i)
                   (if i + 1 < length ?row then ?row ! (i + 1) else 0)"
  have "map ?f [0..<length ?row] = cone_row W c (Suc t)"
  proof (rule nth_equalityI)
    show "length (map ?f [0..<length ?row]) = length (cone_row W c (Suc t))"
      by (simp add: length_cone_row)
  next
    fix i assume "i < length (map ?f [0..<length ?row])"
    then have i: "i < W" by (simp add: length_cone_row)
    let ?j = "int i + int (Suc t) - int c"
    have l: "(if 0 < i then ?row ! (i - 1) else 0) = cone_pattern (int t) (?j - 2)"
    proof (cases "0 < i")
      case True
      with i have "?row ! (i - 1) = cone_pattern (int t) (int (i - 1) + int t - int c)"
        by (intro cone_row_nth) simp
      moreover have "int (i - 1) + int t - int c = ?j - 2" using True by simp
      ultimately have "?row ! (i - 1) = cone_pattern (int t) (?j - 2)" by (simp only:)
      with True show ?thesis by (simp only: if_True)
    next
      case False
      then have "?j - 2 < 0" using assms(1) by simp
      then have "cone_pattern (int t) (?j - 2) = 0" by (simp add: cone_pattern_def)
      with False show ?thesis by simp
    qed
    have c: "?row ! i = cone_pattern (int t) (?j - 1)"
    proof -
      from i have "?row ! i = cone_pattern (int t) (int i + int t - int c)"
        by (rule cone_row_nth)
      moreover have "int i + int t - int c = ?j - 1" by simp
      ultimately show ?thesis by (simp only:)
    qed
    have r: "(if i + 1 < length ?row then ?row ! (i + 1) else 0) = cone_pattern (int t) ?j"
    proof (cases "i + 1 < W")
      case True
      then have "?row ! (i + 1) = cone_pattern (int t) (int (i + 1) + int t - int c)"
        by (rule cone_row_nth)
      moreover have "int (i + 1) + int t - int c = ?j" by simp
      ultimately have "?row ! (i + 1) = cone_pattern (int t) ?j" by (simp only:)
      with True show ?thesis by (simp only: length_cone_row if_True)
    next
      case False
      with i have "i + 1 = W" by simp
      then have "2 * int t < ?j" using assms(2) by simp
      then have "cone_pattern (int t) ?j = 0" by (simp add: cone_pattern_def)
      with False show ?thesis by (simp add: length_cone_row)
    qed
    have "?f i = cone_pattern (int t + 1) ?j"
      unfolding l c r by (rule cone_pattern_step) simp
    moreover have "cone_row W c (Suc t) ! i = cone_pattern (int (Suc t)) ?j"
      using i by (rule cone_row_nth)
    moreover have "int (Suc t) = int t + 1" by simp
    moreover have "map ?f [0..<length ?row] ! i = ?f i"
      using i by (simp add: length_cone_row)
    ultimately show "map ?f [0..<length ?row] ! i = cone_row W c (Suc t) ! i"
      by (simp only:)
  qed
  with next_rule190_fixed0_binary [OF binary_cone_row, of W c t] show ?thesis by simp
qed

lemma single_one_row_cone:
  assumes "c < W" "c = W div 2"
  shows "single_one_row W = cone_row W c 0"
proof (rule nth_equalityI)
  show "length (single_one_row W) = length (cone_row W c 0)"
    by (simp add: single_one_row_def length_cone_row)
next
  fix i assume "i < length (single_one_row W)"
  then have i: "i < W" by (simp add: single_one_row_def)
  have "cone_pattern 0 (int i - int c) = (if i = c then 1 else 0)"
    by (auto simp: cone_pattern_def)
  with i assms show "single_one_row W ! i = cone_row W c 0 ! i"
    by (simp add: single_one_row_def cone_row_nth nth_list_update)
qed

lemma fixed0_steps_cone:
  assumes "0 < W" "t \<le> W div 2" "W div 2 + t \<le> W"
  shows "fixed0_steps t (single_one_row W) = Inr (cone_row W (W div 2) t)"
  using assms(2,3)
proof (induction t)
  case 0
  have "W div 2 < W" using assms(1) by simp
  then show ?case by (simp add: single_one_row_cone)
next
  case (Suc t)
  then have "fixed0_steps t (single_one_row W) = Inr (cone_row W (W div 2) t)" by simp
  moreover have "next_rule190_fixed0 (cone_row W (W div 2) t) = Inr (cone_row W (W div 2) (Suc t))"
    using Suc.prems by (intro fixed0_step_cone) simp_all
  ultimately show ?case by simp
qed

lemma or_push_bit_add:
  fixes x :: int
  assumes "0 \<le> x" "x < 2 ^ n"
  shows "x OR push_bit n 1 = x + 2 ^ n"
proof -
  from assms have "x div 2 ^ n = 0" by simp
  then have "\<not> bit x n" by (simp add: bit_iff_odd)
  then show ?thesis
    using set_bit_eq [of n x] by (simp add: set_bit_int_def)
qed

lemma prefix_value_nonneg: "0 \<le> prefix_value row m"
  by (induction m) simp_all

lemma pack_loop_value:
  assumes "0 \<le> x" "x < 2 ^ bt"
  shows "pack_loop row (rev [0..<m]) (x, bt) = (x + 2 ^ bt * prefix_value row m, bt + m)"
  using assms
proof (induction m arbitrary: x bt)
  case 0
  show ?case by simp
next
  case (Suc m)
  let ?x = "if row ! m \<noteq> 0 then x OR push_bit bt 1 else x"
  have x': "?x = x + (if row ! m \<noteq> 0 then 2 ^ bt else 0)"
    using or_push_bit_add [OF Suc.prems] by simp
  have b: "0 \<le> ?x" "?x < 2 ^ (bt + 1)"
    using Suc.prems unfolding x' by simp_all
  have "pack_loop row (rev [0..<Suc m]) (x, bt) = pack_loop row (rev [0..<m]) (?x, bt + 1)"
    by simp
  also have "\<dots> = (?x + 2 ^ (bt + 1) * prefix_value row m, bt + 1 + m)"
    using b by (rule Suc.IH)
  also have "\<dots> = (x + 2 ^ bt * prefix_value row (Suc m), bt + Suc m)"
    unfolding x' by (simp add: algebra_simps)
  finally show ?case .
qed

lemma find_rightmost_eq:
  assumes "k < W" "row ! k \<noteq> 0" "\<forall>i. k < i \<and> i < W \<longrightarrow> row ! i = 0"
  shows "find_rightmost row (rev [0..<W]) = int k"
  using assms
proof (induction W)
  case 0
  then show ?case by simp
next
  case (Suc W)
  show ?case
  proof (cases "k = W")
    case True
    with Suc.prems(2) show ?thesis by simp
  next
    case False
    with Suc.prems(1) have k: "k < W" by simp
    with Suc.prems(3) have "row ! W = 0" by simp
    moreover from Suc.IH [OF k Suc.prems(2)] Suc.prems(3)
    have "find_rightmost row (rev [0..<W]) = int k" by simp
    ultimately show ?thesis by simp
  qed
qed

lemma row_to_int_prefix_value:
  assumes "k < length row" "row ! k \<noteq> 0" "\<forall>i. k < i \<and> i < length row \<longrightarrow> row ! i = 0"
  shows "row_to_int_anchor_rightmost row = prefix_value row (Suc k)"
proof -
  have "find_rightmost row (rev [0..<length row]) = int k"
    using assms by (rule find_rightmost_eq)
  moreover have "nat (int k + 1) = Suc k" by simp
  moreover have "pack_loop row (rev [0..<Suc k]) (0, 0) = (0 + 2 ^ 0 * prefix_value row (Suc k), 0 + Suc k)"
    by (rule pack_loop_value) simp_all
  ultimately show ?thesis
    by (simp add: row_to_int_anchor_rightmost_def Let_def del: upt_Suc prefix_value.simps)
qed

lemma closed_form_step:
  "closed_form (Suc t) = 4 * closed_form t + (if even t then 3 else 1)"
  by (induction t rule: closed_form.induct) simp_all

lemma pattern_value_closed_form: "pattern_value (Suc (2 * t)) = closed_form t"
proof (induction t)
  case 0
  show ?case by simp
next
  case (Suc t)
  have m1: "(int (Suc (2 * t)) mod 4 \<noteq> 3) = even t" by presburger
  have m2: "int (Suc (Suc (2 * t))) mod 4 \<noteq> 3" by presburger
  have e0: "Suc (2 * Suc t) = Suc (Suc (Suc (2 * t)))" by simp
  have e1: "pattern_value (Suc (Suc (Suc (2 * t)))) =
      2 * pattern_value (Suc (Suc (2 * t))) + (if int (Suc (Suc (2 * t))) mod 4 \<noteq> 3 then 1 else 0)"
    by (rule pattern_value.simps(2))
  have e2: "pattern_value (Suc (Suc (2 * t))) =
      2 * pattern_value (Suc (2 * t)) + (if int (Suc (2 * t)) mod 4 \<noteq> 3 then 1 else 0)"
    by (rule pattern_value.simps(2))
  have "pattern_value (Suc (2 * Suc t)) =
      2 * (2 * closed_form t + (if even t then 1 else 0)) + 1"
    unfolding e0 e1 e2 Suc.IH using m1 m2 by (simp only: if_True not_False_eq_True simp_thms)
  also have "\<dots> = 4 * closed_form t + (if even t then 3 else 1)"
    by simp
  finally show ?case by (simp only: closed_form_step)
qed

lemma prefix_value_zero: "\<forall>i<m. row ! i = 0 \<Longrightarrow> prefix_value row m = 0"
  by (induction m) simp_all

lemma prefix_value_cone:
  assumes "t \<le> c" "c + t < W" "m \<le> Suc (2 * t)"
  shows "prefix_value (cone_row W c t) (c - t + m) = pattern_value m"
  using assms(3)
proof (induction m)
  case 0
  have "\<forall>i<c - t. cone_row W c t ! i = 0"
  proof (intro allI impI)
    fix i assume i: "i < c - t"
    with assms(2) have "i < W" by simp
    then have "cone_row W c t ! i = cone_pattern (int t) (int i + int t - int c)"
      by (rule cone_row_nth)
    moreover from i have "int i + int t - int c < 0" by simp
    ultimately show "cone_row W c t ! i = 0" by (simp add: cone_pattern_def)
  qed
  then show ?case by (simp add: prefix_value_zero)
next
  case (Suc m)
  then have m: "m \<le> 2 * t" by simp
  with assms(1,2) have "c - t + m < W" by simp
  then have "cone_row W c t ! (c - t + m) = cone_pattern (int t) (int (c - t + m) + int t - int c)"
    by (rule cone_row_nth)
  moreover have "int (c - t + m) + int t - int c = int m" using assms(1) by simp
  ultimately have "cone_row W c t ! (c - t + m) = cone_pattern (int t) (int m)" by (simp only:)
  also have "\<dots> = (if int m mod 4 \<noteq> 3 then 1 else 0)"
    using m by (simp add: cone_pattern_def)
  finally have cell: "cone_row W c t ! (c - t + m) = (if int m mod 4 \<noteq> 3 then 1 else 0)" .
  have "prefix_value (cone_row W c t) (c - t + Suc m) =
        2 * prefix_value (cone_row W c t) (c - t + m) +
        (if cone_row W c t ! (c - t + m) \<noteq> 0 then 1 else 0)"
    by simp
  also have "\<dots> = 2 * pattern_value m + (if int m mod 4 \<noteq> 3 then 1 else 0)"
    using Suc m unfolding cell by simp
  finally show ?case by simp
qed

lemma encoding_cone:
  assumes "t \<le> c" "c + t < W"
  shows "row_to_int_anchor_rightmost (cone_row W c t) = closed_form t"
proof -
  let ?row = "cone_row W c t"
  have m: "(2 * int t) mod 4 \<noteq> 3" by presburger
  have "?row ! (c + t) = cone_pattern (int t) (int (c + t) + int t - int c)"
    using assms(2) by (rule cone_row_nth)
  also have "int (c + t) + int t - int c = 2 * int t" by simp
  also have "cone_pattern (int t) (2 * int t) = 1" using m by (simp add: cone_pattern_def)
  finally have k: "?row ! (c + t) \<noteq> 0" by simp
  have z: "\<forall>i. c + t < i \<and> i < length ?row \<longrightarrow> ?row ! i = 0"
  proof (intro allI impI)
    fix i assume i: "c + t < i \<and> i < length ?row"
    then have "i < W" by (simp add: length_cone_row)
    then have "?row ! i = cone_pattern (int t) (int i + int t - int c)" by (rule cone_row_nth)
    moreover from i have "2 * int t < int i + int t - int c" by simp
    ultimately show "?row ! i = 0" by (simp add: cone_pattern_def)
  qed
  have "c + t < length ?row" using assms(2) by (simp add: length_cone_row)
  from row_to_int_prefix_value [OF this k z]
  have "row_to_int_anchor_rightmost ?row = prefix_value ?row (Suc (c + t))" .
  also have "Suc (c + t) = c - t + Suc (2 * t)" using assms(1) by simp
  also have "prefix_value ?row (c - t + Suc (2 * t)) = pattern_value (Suc (2 * t))"
    using assms by (intro prefix_value_cone) simp_all
  also have "\<dots> = closed_form t" by (rule pattern_value_closed_form)
  finally show ?thesis .
qed

lemma sequence_loop_closed_form:
  assumes "a = map closed_form [0..<m]" "3 \<le> m"
  shows "sequence_loop ks a = Inr (map closed_form [0..<m + length ks])"
  using assms
proof (induction ks arbitrary: a m)
  case Nil
  then show ?case by simp
next
  case (Cons k ks)
  from Cons.prems(2) obtain m' where m': "m = Suc (Suc (Suc m'))"
    by (metis add_2_eq_Suc' le_Suc_ex numeral_3_eq_3 add_Suc)
  have len: "length a = m" by (simp add: Cons.prems(1))
  have "a ! (m - 1) = closed_form (m - 1)" "a ! (m - 2) = closed_form (m - 2)"
    "a ! (m - 3) = closed_form (m - 3)"
    using Cons.prems(2) by (simp_all add: Cons.prems(1))
  then have "4 * a ! (m - 1) + a ! (m - 2) - 4 * a ! (m - 3) = closed_form m"
    by (simp add: m')
  then have "a @ [4 * a ! (m - 1) + a ! (m - 2) - 4 * a ! (m - 3)] = map closed_form [0..<Suc m]"
    by (simp add: Cons.prems(1))
  from Cons.IH [OF this] Cons.prems(2)
  have "sequence_loop ks (a @ [4 * a ! (m - 1) + a ! (m - 2) - 4 * a ! (m - 3)]) =
        Inr (map closed_form [0..<Suc m + length ks])" by simp
  with Cons.prems(2) show ?case
    by (simp add: len Let_def del: upt_Suc)
qed

lemma rule190_single_one_sequence_closed_form:
  "rule190_single_one_sequence (int n) = Inr (map closed_form [0..<n])"
proof -
  consider "n = 0" | "n = 1" | "n = 2" | "3 \<le> n" by linarith
  then show ?thesis
  proof cases
    case 4
    have a: "[1, 7, 29] = map closed_form [0..<3]"
      by (simp add: upt_rec numeral_3_eq_3)
    have "sequence_loop [3..<n] [1, 7, 29] = Inr (map closed_form [0..<3 + length [3..<n]])"
      using a by (rule sequence_loop_closed_form) simp
    also have "3 + length [3..<n] = n" using 4 by simp
    finally show ?thesis using 4 by (simp add: rule190_single_one_sequence_def)
  qed (simp_all add: rule190_single_one_sequence_def upt_rec numeral_2_eq_2)
qed

text \<open>
  Claim C2. For every \<open>n \<ge> 1\<close>, a fixed-zero row of width at least \<open>1 + 2 n\<close> with a
  single 1 at its centre, and every step \<open>t < n\<close>: the row after \<open>t\<close> fixed-zero steps
  exists, the closed-form sequence of length \<open>n\<close> exists, the anchored encoding of
  the row is the term \<open>t\<close> of the sequence, and this term is the term \<open>t\<close> of the
  recurrence \<open>a(0) = 1\<close>, \<open>a(1) = 7\<close>, \<open>a(2) = 29\<close>,
  \<open>a(t) = 4 a(t - 1) + a(t - 2) - 4 a(t - 3)\<close>.
\<close>

theorem single_one_encoding_is_closed_form:
  assumes "1 \<le> n" "1 + 2 * n \<le> W" "t < n"
  shows "\<exists>row a. fixed0_steps t (single_one_row W) = Inr row \<and>
           rule190_single_one_sequence (int n) = Inr a \<and> length a = n \<and>
           row_to_int_anchor_rightmost row = a ! t \<and> a ! t = closed_form t"
proof -
  let ?c = "W div 2"
  from assms have c: "t \<le> ?c" "?c + t < W" "0 < W" by auto
  then have "fixed0_steps t (single_one_row W) = Inr (cone_row W ?c t)"
    by (intro fixed0_steps_cone) simp_all
  moreover have "row_to_int_anchor_rightmost (cone_row W ?c t) = closed_form t"
    using c(1,2) by (rule encoding_cone)
  moreover have "map closed_form [0..<n] ! t = closed_form t"
    using assms(3) by simp
  ultimately show ?thesis
    by (simp add: rule190_single_one_sequence_closed_form del: fixed0_steps.simps)
qed

lemma closed_form_9: "closed_form 9 = 489335"
  by (simp add: eval_nat_numeral)

theorem single_one_encoding_is_closed_form_witness:
  "(1::nat) \<le> 10 \<and> 1 + 2 * 10 \<le> (21::nat) \<and> (9::nat) < 10 \<and>
   (\<exists>row a. fixed0_steps 9 (single_one_row 21) = Inr row \<and>
      rule190_single_one_sequence 10 = Inr a \<and> length a = 10 \<and>
      row_to_int_anchor_rightmost row = a ! 9 \<and> a ! 9 = 489335)"
proof -
  have h: "(1::nat) \<le> 10" "1 + 2 * 10 \<le> (21::nat)" "(9::nat) < 10" by simp_all
  from single_one_encoding_is_closed_form [OF h]
  obtain row a where "fixed0_steps 9 (single_one_row 21) = Inr row"
    "rule190_single_one_sequence (int 10) = Inr a" "length a = 10"
    "row_to_int_anchor_rightmost row = a ! 9" "a ! 9 = closed_form 9"
    by blast
  then have "fixed0_steps 9 (single_one_row 21) = Inr row \<and>
      rule190_single_one_sequence 10 = Inr a \<and> length a = 10 \<and>
      row_to_int_anchor_rightmost row = a ! 9 \<and> a ! 9 = 489335"
    by (simp add: closed_form_9)
  then show ?thesis using h by blast
qed

lemma validation_first_values:
  "map (\<lambda>t. map_sum id row_to_int_anchor_rightmost (fixed0_steps t (single_one_row 9))) [0..<4] =
   [Inr 1, Inr 7, Inr 29, Inr 119]"
  by code_simp

end
